theory Spec2Isabelle
  imports Main
begin

section \<open>The node graph of \<^verbatim>\<open>AVL<T>\<close>\<close>

text \<open>
  A \<^verbatim>\<open>Node*\<close> of \<^verbatim>\<open>src/AvlTree.cpp\<close> is either \<^verbatim>\<open>nullptr\<close> or points to a node
  that exclusively owns its two children, so a pointer is modelled by the subtree it
  points to. The field order of the constructor is \<^verbatim>\<open>left\<close>, \<^verbatim>\<open>key\<close>, the cached
  \<^verbatim>\<open>height\<close> field (a \<^verbatim>\<open>long long\<close>, here an unbounded integer: it is bounded by the
  number of nodes), \<^verbatim>\<open>right\<close>. The key type \<^verbatim>\<open>T\<close> is any linear order.
\<close>

datatype 'a node = Null | Node (left: "'a node") (key: 'a) (cached: int) (right: "'a node")

text \<open>\<^verbatim>\<open>height(Node *node)\<close>: \<^verbatim>\<open>node ? node->height : 0\<close>.\<close>

fun height :: "'a node \<Rightarrow> int" where
  "height Null = 0"
| "height (Node l k h r) = h"

text \<open>\<^verbatim>\<open>search(Node *root, const T& value)\<close>: the pointer returned is the subtree found.\<close>

fun search :: "'a::linorder node \<Rightarrow> 'a \<Rightarrow> 'a node" where
  "search Null v = Null"
| "search (Node l k h r) v =
     (if k = v then Node l k h r
      else if k < v then search r v
      else search l v)"

text \<open>
  The rotations dereference \<^verbatim>\<open>root\<close> and the child that becomes the new root. Where
  one of them is \<^verbatim>\<open>nullptr\<close> the C++ has undefined behaviour (a null-pointer read),
  which is the value \<open>None\<close> here. The old root's height is recomputed first, then the
  new root's.
\<close>

fun rightRotation :: "'a node \<Rightarrow> 'a node option" where
  "rightRotation (Node (Node ll lk lh lr) k h r) =
     (let root' = Node lr k (1 + max (height lr) (height r)) r
      in Some (Node ll lk (1 + max (height ll) (height root')) root'))"
| "rightRotation (Node Null k h r) = None"
| "rightRotation Null = None"

fun leftRotation :: "'a node \<Rightarrow> 'a node option" where
  "leftRotation (Node l k h (Node rl rk rh rr)) =
     (let root' = Node l k (1 + max (height l) (height rl)) rl
      in Some (Node root' rk (1 + max (height root') (height rr)) rr))"
| "leftRotation (Node l k h Null) = None"
| "leftRotation Null = None"

subsection \<open>insert\<close>

text \<open>
  Lines 232-254 of \<^verbatim>\<open>insert\<close>, run on the node whose child link has just been
  rewritten: recompute the height, compute the balance, and rotate. The choice between
  the single and the double rotation compares \<^verbatim>\<open>value\<close> with the key of the heavy
  child.
\<close>

fun insert_rebalance :: "'a::linorder \<Rightarrow> 'a node \<Rightarrow> 'a node option" where
  "insert_rebalance v Null = None"
| "insert_rebalance v (Node l k h r) =
     (let root = Node l k (1 + max (height l) (height r)) r;
          balance = height l - height r
      in if 1 < balance then
           (case l of
              Null \<Rightarrow> None
            | Node ll lk lh lr \<Rightarrow>
                if v < lk then rightRotation root
                else (case leftRotation l of
                        None \<Rightarrow> None
                      | Some l' \<Rightarrow> rightRotation (Node l' k (cached root) r)))
         else if balance < - 1 then
           (case r of
              Null \<Rightarrow> None
            | Node rl rk rh rr \<Rightarrow>
                if v > rk then leftRotation root
                else (case rightRotation r of
                        None \<Rightarrow> None
                      | Some r' \<Rightarrow> leftRotation (Node l k (cached root) r')))
         else Some root)"

fun insert_avl :: "'a::linorder node \<Rightarrow> 'a \<Rightarrow> 'a node option" where
  "insert_avl Null v = Some (Node Null v 1 Null)"
| "insert_avl (Node l k h r) v =
     (if v < k then
        (case insert_avl l v of
           None \<Rightarrow> None
         | Some l' \<Rightarrow> insert_rebalance v (Node l' k h r))
      else if v > k then
        (case insert_avl r v of
           None \<Rightarrow> None
         | Some r' \<Rightarrow> insert_rebalance v (Node l k h r'))
      else insert_rebalance v (Node l k h r))"

subsection \<open>remove\<close>

text \<open>
  Lines 311-338 of \<^verbatim>\<open>remove\<close>: nothing to do on \<^verbatim>\<open>nullptr\<close>; otherwise recompute
  the height and the balance and rotate. The guard of the inner \<^verbatim>\<open>if\<close> compares the
  heights of the two children of \<^verbatim>\<open>root\<close> itself.
\<close>

fun remove_rebalance :: "'a node \<Rightarrow> 'a node option" where
  "remove_rebalance Null = Some Null"
| "remove_rebalance (Node l k h r) =
     (let root = Node l k (1 + max (height l) (height r)) r;
          balance = height l - height r
      in if balance > 1 then
           (if height l \<ge> height r then rightRotation root
            else (case leftRotation l of
                    None \<Rightarrow> None
                  | Some l' \<Rightarrow> rightRotation (Node l' k (cached root) r)))
         else if balance < - 1 then
           (if height r \<ge> height l then leftRotation root
            else (case rightRotation r of
                    None \<Rightarrow> None
                  | Some r' \<Rightarrow> leftRotation (Node l k (cached root) r')))
         else Some root)"

text \<open>
  The two-children case when \<^verbatim>\<open>root->right\<close> has a left child (lines 290-294 and
  302-306). The walk \<^verbatim>\<open>while (right->left and right->left->left) right = right->left\<close>
  stops at the parent of the leftmost node; that node's key is copied out and the
  parent's \<^verbatim>\<open>left\<close> is set to \<^verbatim>\<open>nullptr\<close>. The result is the key copied and the subtree
  of \<^verbatim>\<open>root->right\<close> after the in-place write: no height on the way is touched, and
  the right subtree \<open>lr\<close> of the leftmost node is not linked anywhere.
\<close>

fun detach_successor :: "'a node \<Rightarrow> ('a \<times> 'a node) option" where
  "detach_successor (Node (Node (Node a b c d) lk lh lr) k h r) =
     (case detach_successor (Node (Node a b c d) lk lh lr) of
        None \<Rightarrow> None
      | Some (sk, l') \<Rightarrow> Some (sk, Node l' k h r))"
| "detach_successor (Node (Node Null lk lh lr) k h r) = Some (lk, Node Null k h r)"
| "detach_successor (Node Null k h r) = None"
| "detach_successor Null = None"

fun remove_avl :: "'a::linorder node \<Rightarrow> 'a \<Rightarrow> 'a node option" where
  "remove_avl Null v = Some Null"
| "remove_avl (Node l k h r) v =
     (if v < k then
        (case remove_avl l v of
           None \<Rightarrow> None
         | Some l' \<Rightarrow> remove_rebalance (Node l' k h r))
      else if v > k then
        (case remove_avl r v of
           None \<Rightarrow> None
         | Some r' \<Rightarrow> remove_rebalance (Node l k h r'))
      else
        (case r of
           Null \<Rightarrow> remove_rebalance l
         | Node rl rk rh rr \<Rightarrow>
             (case l of
                Null \<Rightarrow> remove_rebalance r
              | Node ll lk lh lr \<Rightarrow>
                  (case rl of
                     Null \<Rightarrow> remove_rebalance (Node l rk h rr)
                   | Node rll rlk rlh rlr \<Rightarrow>
                       (case detach_successor r of
                          None \<Rightarrow> None
                        | Some (sk, r') \<Rightarrow> remove_rebalance (Node l sk h r'))))))"

subsection \<open>Sequences of public calls\<close>

text \<open>
  The public \<^verbatim>\<open>insert\<close> and \<^verbatim>\<open>remove\<close> replace \<^verbatim>\<open>root\<close> by the result of the
  private function. A run stops with \<open>None\<close> at the first call that reads through a
  null pointer.
\<close>

datatype 'a call = Insert 'a | Remove 'a

fun run_call :: "'a::linorder node \<Rightarrow> 'a call \<Rightarrow> 'a node option" where
  "run_call t (Insert v) = insert_avl t v"
| "run_call t (Remove v) = remove_avl t v"

fun run_calls :: "'a::linorder node \<Rightarrow> 'a call list \<Rightarrow> 'a node option" where
  "run_calls t [] = Some t"
| "run_calls t (c # cs) =
     (case run_call t c of
        None \<Rightarrow> None
      | Some t' \<Rightarrow> run_calls t' cs)"

section \<open>The renderer\<close>

subsection \<open>generateDisplayGrid\<close>

text \<open>
  \<^verbatim>\<open>struct cell_display\<close>: the no-argument constructor leaves \<^verbatim>\<open>value\<close> empty and sets
  \<^verbatim>\<open>present\<close> to false; the one-argument constructor stores the string and sets
  \<^verbatim>\<open>present\<close> to true.
\<close>

record cell_display =
  cell_value :: string
  present :: bool

definition absent_cell :: cell_display where
  "absent_cell = \<lparr>cell_value = [], present = False\<rparr>"

definition present_cell :: "string \<Rightarrow> cell_display" where
  "present_cell s = \<lparr>cell_value = s, present = True\<rparr>"

text \<open>
  \<^verbatim>\<open>if (current) current = current->left\<close> and its mirror: a null \<^verbatim>\<open>current\<close> stays
  null.
\<close>

fun left_of :: "'a node \<Rightarrow> 'a node" where
  "left_of Null = Null"
| "left_of (Node l k h r) = l"

fun right_of :: "'a node \<Rightarrow> 'a node" where
  "right_of Null = Null"
| "right_of (Node l k h r) = r"

text \<open>\<^verbatim>\<open>rows[depth].push_back(current)\<close>.\<close>

definition push_row :: "'a list list \<Rightarrow> nat \<Rightarrow> 'a \<Rightarrow> 'a list list" where
  "push_row rows d x = rows[d := rows ! d @ [x]]"

text \<open>
  The \<^verbatim>\<open>while (true)\<close> loop of lines 359-407 on its four variables. Each branch of
  the loop body is one branch here, in the source's order; \<^verbatim>\<open>break\<close> returns the rows.
  An index outside \<^verbatim>\<open>rows\<close> and \<^verbatim>\<open>back()\<close> or \<^verbatim>\<open>pop_back()\<close> on an empty stack are
  undefined behaviour in C++ and give \<open>None\<close>; so does a loop that never ends.
  \<^verbatim>\<open>depth == max_depth - 1\<close> is written \<open>depth + 1 = max_depth\<close> on naturals
  (\<^verbatim>\<open>max_depth\<close> is at least 1 where the loop is entered).
\<close>

partial_function (option) grid_loop ::
  "nat \<Rightarrow> 'a node \<Rightarrow> nat \<Rightarrow> 'a node list \<Rightarrow> 'a node list list \<Rightarrow> 'a node list list option" where
  "grid_loop max_depth current depth traversal_stack rows =
     (if depth + 1 = max_depth then
        (if length rows \<le> depth then None
         else if depth = 0 then Some (push_row rows depth current)
         else grid_loop max_depth current (depth - 1) traversal_stack (push_row rows depth current))
      else if length traversal_stack = depth then
        (if length rows \<le> depth then None
         else grid_loop max_depth (left_of current) (depth + 1)
                (traversal_stack @ [current]) (push_row rows depth current))
      else if length rows \<le> depth + 1 then None
      else if odd (length (rows ! (depth + 1))) then
        (if traversal_stack = [] then None
         else grid_loop max_depth (right_of (last traversal_stack)) (depth + 1) traversal_stack rows)
      else if depth = 0 then Some rows
      else if traversal_stack = [] \<or> butlast traversal_stack = [] then None
      else grid_loop max_depth (last (butlast traversal_stack)) (depth - 1)
             (butlast traversal_stack) rows)"

declare grid_loop.simps [code]

text \<open>
  \<^verbatim>\<open>generateDisplayGrid\<close>. The stream insertion \<^verbatim>\<open>ss << pn->key\<close> is the parameter
  \<open>to_string\<close>. \<^verbatim>\<open>rows.resize(max_depth)\<close> with a height below 1 does not give a
  grid (a negative size, or a write to \<^verbatim>\<open>rows[0]\<close> of an empty vector): \<open>None\<close>.
\<close>

definition generateDisplayGrid :: "('a \<Rightarrow> string) \<Rightarrow> 'a node \<Rightarrow> cell_display list list option" where
  "generateDisplayGrid to_string root =
     (case root of
        Null \<Rightarrow> Some []
      | Node l k h r \<Rightarrow>
          if h < 1 then None
          else (case grid_loop (nat h) root 0 [] (replicate (nat h) []) of
                  None \<Rightarrow> None
                | Some rows \<Rightarrow>
                    Some (map (map (\<lambda>pn. case pn of
                                           Null \<Rightarrow> absent_cell
                                         | Node l' k' h' r' \<Rightarrow> present_cell (to_string k'))) rows)))"


subsection \<open>formatGrid\<close>

definition spaces :: "nat \<Rightarrow> string" where
  "spaces n = replicate n CHR '' ''"

text \<open>Lines 444-457: the two nested loops over the cells, then the parity step.\<close>

definition grid_cell_width :: "cell_display list list \<Rightarrow> nat" where
  "grid_cell_width grid =
     (let cell_width =
            fold (\<lambda>row w.
                    fold (\<lambda>cell w'.
                            if present cell \<and> w' < length (cell_value cell)
                            then length (cell_value cell) else w') row w)
                 grid 3
      in if cell_width mod 2 = 0 then cell_width + 1 else cell_width)"

text \<open>
  Lines 494-516, the text of one cell in column \<open>c\<close>. \<^verbatim>\<open>cell_width\<close> is at least the
  length of every present value (\<open>cell_width_covers_cells\<close> below), so the subtraction
  does not go below zero.
\<close>

definition format_cell :: "nat \<Rightarrow> nat \<Rightarrow> cell_display \<Rightarrow> string" where
  "format_cell cell_width c cell =
     (if present cell then
        (let long_padding0 = cell_width - length (cell_value cell);
             short_padding = long_padding0 div 2;
             long_padding = long_padding0 - short_padding
         in spaces (if c mod 2 \<noteq> 0 then short_padding else long_padding)
            @ cell_value cell
            @ spaces (if c mod 2 \<noteq> 0 then long_padding else short_padding))
      else spaces cell_width)"

text \<open>Lines 487-517: one line of values.\<close>

definition value_row :: "nat \<Rightarrow> nat \<Rightarrow> cell_display list \<Rightarrow> nat \<Rightarrow> string" where
  "value_row cell_width left_pad gridRow row_elem_count =
     concat (map (\<lambda>c. spaces (if c \<noteq> 0 then 2 * left_pad + 1 else left_pad)
                        @ format_cell cell_width c (gridRow ! c))
                 [0..<row_elem_count])"

text \<open>Lines 536-547: one line of connectors; \<open>CHR 0x5C\<close> is the backslash.\<close>

definition slash_row :: "nat \<Rightarrow> nat \<Rightarrow> cell_display list \<Rightarrow> nat \<Rightarrow> string" where
  "slash_row left_space right_space gridRow row_elem_count =
     concat (map (\<lambda>c. if c mod 2 = 0 then
                          spaces (if c \<noteq> 0 then 2 * left_space + 1 else left_space)
                          @ [if present (gridRow ! c) then CHR ''/'' else CHR '' '']
                          @ spaces (right_space + 1)
                        else
                          spaces right_space
                          @ [if present (gridRow ! c) then CHR 0x5C else CHR '' ''])
                 [0..<row_elem_count])"

text \<open>
  The \<^verbatim>\<open>for\<close> loop over \<open>r\<close> of lines 477-556, with \<^verbatim>\<open>result\<close> in push order. In the
  \<open>i\<close>-th connector line \<^verbatim>\<open>left_space\<close> is \<open>space + 1 + i\<close> and \<^verbatim>\<open>right_space\<close> is
  \<open>space - 1 - i\<close>. Reading \<^verbatim>\<open>gridRow[c]\<close> beyond the row is undefined behaviour:
  \<open>None\<close>.
\<close>

function format_loop ::
  "nat \<Rightarrow> cell_display list list \<Rightarrow> nat \<Rightarrow> nat \<Rightarrow> nat \<Rightarrow> string list \<Rightarrow> string list option" where
  "format_loop cell_width grid r row_elem_count left_pad result =
     (if r < length grid then
        (let gridRow = grid ! (length grid - r - 1);
             space = 2 ^ r * (cell_width + 1) div 2 - 1
         in if length gridRow < row_elem_count then None
            else if row_elem_count = 1 then
              Some (result @ [value_row cell_width left_pad gridRow row_elem_count])
            else
              format_loop cell_width grid (r + 1) (row_elem_count div 2) (left_pad + space + 1)
                (result @ [value_row cell_width left_pad gridRow row_elem_count]
                        @ map (\<lambda>i. slash_row (space + 1 + i) (space - 1 - i) gridRow row_elem_count)
                              [0..<space]))
      else Some result)"
  by pat_completeness auto
termination
  by (relation "measure (\<lambda>(cw, grid, r, n, lp, res). length grid - r)") auto

declare format_loop.simps [simp del]

text \<open>
  \<^verbatim>\<open>formatGrid\<close>. \<^verbatim>\<open>1 << (row_count - 1)\<close> is a shift of the \<^verbatim>\<open>int\<close> 1: for an empty
  grid the count is negative, and from 32 rows on the result does not fit a 32-bit
  \<^verbatim>\<open>int\<close>; both are \<open>None\<close>. The result is reversed at the end.
\<close>

definition formatGrid :: "cell_display list list \<Rightarrow> string list option" where
  "formatGrid grid =
     (if grid = [] \<or> 31 < length grid then None
      else map_option rev
             (format_loop (grid_cell_width grid) grid 0 (2 ^ (length grid - 1)) 0 []))"

subsection \<open>trimRowsLeft and display\<close>

text \<open>
  \<^verbatim>\<open>row.find_first_not_of(' ')\<close>, with \<^verbatim>\<open>npos\<close> replaced by the length of the row.
\<close>

definition leading_spaces :: "string \<Rightarrow> nat" where
  "leading_spaces row = length (takeWhile (\<lambda>ch. ch = CHR '' '') row)"

text \<open>
  The first loop of \<^verbatim>\<open>trimRowsLeft\<close>: \<open>None\<close> is the early \<^verbatim>\<open>return\<close> at a row that
  starts with no space.
\<close>

fun min_space_scan :: "string list \<Rightarrow> nat \<Rightarrow> nat option" where
  "min_space_scan [] min_space = Some min_space"
| "min_space_scan (row # rows) min_space =
     (let i = leading_spaces row
      in if i = 0 then None
         else min_space_scan rows (if i < min_space then i else min_space))"

definition trimRowsLeft :: "string list \<Rightarrow> string list" where
  "trimRowsLeft rows =
     (case rows of
        [] \<Rightarrow> []
      | front # rest \<Rightarrow>
          (case min_space_scan rows (length front) of
             None \<Rightarrow> rows
           | Some min_space \<Rightarrow> map (drop min_space) rows))"

text \<open>
  \<^verbatim>\<open>display\<close>: the lines written to \<^verbatim>\<open>out\<close>, each without its line end. Every row is
  written as \<^verbatim>\<open>out << ' ' << row << '\n'\<close>.
\<close>

definition display :: "('a \<Rightarrow> string) \<Rightarrow> 'a node \<Rightarrow> string list option" where
  "display to_string root =
     (if height root = 0 then Some [''<empty tree>'']
      else (case generateDisplayGrid to_string root of
              None \<Rightarrow> None
            | Some grid \<Rightarrow>
                (case formatGrid grid of
                   None \<Rightarrow> None
                 | Some formattedGrid \<Rightarrow>
                     Some (map (\<lambda>row. CHR '' '' # row) (trimRowsLeft formattedGrid)))))"

section \<open>The properties the operations are checked against\<close>

text \<open>The keys of a tree from left to right.\<close>

fun inorder :: "'a node \<Rightarrow> 'a list" where
  "inorder Null = []"
| "inorder (Node l k h r) = inorder l @ k # inorder r"

text \<open>
  Search-tree order: at every node each key of the left subtree is below the node's
  key and each key of the right subtree is above it.
\<close>

fun bst :: "'a::linorder node \<Rightarrow> bool" where
  "bst Null = True"
| "bst (Node l k h r) =
     (bst l \<and> bst r \<and> (\<forall>x \<in> set (inorder l). x < k) \<and> (\<forall>x \<in> set (inorder r). k < x))"

text \<open>
  The balance condition at every node, on the heights the code itself reads
  (\<^const>\<open>height\<close>: the cached field, 0 for an absent subtree).
\<close>

fun balanced :: "'a node \<Rightarrow> bool" where
  "balanced Null = True"
| "balanced (Node l k h r) = (balanced l \<and> balanced r \<and> \<bar>height l - height r\<bar> \<le> 1)"

text \<open>The height formula at every node.\<close>

fun heights_ok :: "'a node \<Rightarrow> bool" where
  "heights_ok Null = True"
| "heights_ok (Node l k h r) =
     (heights_ok l \<and> heights_ok r \<and> h = 1 + max (height l) (height r))"

text \<open>The number of levels a tree really has, whatever its cached fields say.\<close>

fun levels :: "'a node \<Rightarrow> nat" where
  "levels Null = 0"
| "levels (Node l k h r) = Suc (max (levels l) (levels r))"

text \<open>
  The key in slot \<open>i\<close> of level \<open>d\<close>, the slots of a level numbered from the left
  starting at 0, read off the tree itself: the root is the one slot of level 0, the
  left half of level \<open>d + 1\<close> of a node is level \<open>d\<close> of its left subtree and the
  right half is level \<open>d\<close> of its right subtree. \<open>None\<close> says that no node is there;
  below an absent subtree every slot is empty.
\<close>

fun slot_key :: "'a node \<Rightarrow> nat \<Rightarrow> nat \<Rightarrow> 'a option" where
  "slot_key Null d i = None"
| "slot_key (Node l k h r) 0 i = Some k"
| "slot_key (Node l k h r) (Suc d) i =
     (if i < 2 ^ d then slot_key l d i else slot_key r d (i - 2 ^ d))"

text \<open>
  The rebalancing step of \<^verbatim>\<open>remove\<close> as the specification words it: the choice
  between the single and the double rotation compares the heights of the two
  grandchildren under the heavy child. It differs from \<^const>\<open>remove_rebalance\<close> in
  the two inner guards only.
\<close>

fun remove_rebalance_by_grandchildren :: "'a node \<Rightarrow> 'a node option" where
  "remove_rebalance_by_grandchildren Null = Some Null"
| "remove_rebalance_by_grandchildren (Node l k h r) =
     (let root = Node l k (1 + max (height l) (height r)) r;
          balance = height l - height r
      in if balance > 1 then
           (if height (left_of l) \<ge> height (right_of l) then rightRotation root
            else (case leftRotation l of
                    None \<Rightarrow> None
                  | Some l' \<Rightarrow> rightRotation (Node l' k (cached root) r)))
         else if balance < - 1 then
           (if height (right_of r) \<ge> height (left_of r) then leftRotation root
            else (case rightRotation r of
                    None \<Rightarrow> None
                  | Some r' \<Rightarrow> leftRotation (Node l k (cached root) r')))
         else Some root)"

text \<open>
  Every cached height is at least 1: what the constructor and each height update
  write. The rotations of \<^verbatim>\<open>remove\<close> rely on it.
\<close>

fun cached_positive :: "'a node \<Rightarrow> bool" where
  "cached_positive Null = True"
| "cached_positive (Node l k h r) = (cached_positive l \<and> cached_positive r \<and> 1 \<le> h)"

text \<open>
  Level \<open>d\<close> of a tree as the list of its \<open>2 ^ d\<close> slots from left to right, and the
  effect of visiting the subtree \<open>t\<close> that sits at depth \<open>d\<close> on the rows collected so
  far: row \<open>j\<close> from \<open>d\<close> on receives level \<open>j - d\<close> of \<open>t\<close>.
\<close>

fun slots :: "'a node \<Rightarrow> nat \<Rightarrow> 'a node list" where
  "slots t 0 = [t]"
| "slots t (Suc d) = slots (left_of t) d @ slots (right_of t) d"

definition fill :: "'a node \<Rightarrow> nat \<Rightarrow> 'a node list list \<Rightarrow> 'a node list list" where
  "fill t d rows = map (\<lambda>j. if d \<le> j then rows ! j @ slots t (j - d) else rows ! j) [0..<length rows]"

text \<open>The cell built from one collected pointer (lines 423-430).\<close>

definition cell_of :: "('a \<Rightarrow> string) \<Rightarrow> 'a node \<Rightarrow> cell_display" where
  "cell_of to_string pn = (case pn of Null \<Rightarrow> absent_cell | Node l k h r \<Rightarrow> present_cell (to_string k))"

text \<open>
  The text \<^verbatim>\<open>operator<<\<close> writes for an \<^verbatim>\<open>int\<close> key, the instance \<^verbatim>\<open>AVL<int>\<close> of
  \<^verbatim>\<open>main.cpp\<close>: decimal digits, with a minus sign below zero.
\<close>

fun show_nat :: "nat \<Rightarrow> string" where
  "show_nat n =
     (if n < 10 then [''0123456789'' ! n]
      else show_nat (n div 10) @ [''0123456789'' ! (n mod 10)])"

declare show_nat.simps [simp del]

definition show_int :: "int \<Rightarrow> string" where
  "show_int i = (if i < 0 then CHR ''-'' # show_nat (nat (- i)) else show_nat (nat i))"

text \<open>The lengths of the values of the present cells among some cells.\<close>

definition present_lengths :: "cell_display list \<Rightarrow> nat set" where
  "present_lengths cells = {length (cell_value c) | c. c \<in> set cells \<and> present c}"

section \<open>Search-tree order is kept by every call\<close>

lemma bst_iff_sorted: "bst t = sorted_wrt (<) (inorder t)"
  by (induction t) (auto simp: sorted_wrt_append intro: less_trans)

lemma inorder_rightRotation: "rightRotation t = Some t' \<Longrightarrow> inorder t' = inorder t"
  by (induction t rule: rightRotation.induct) (auto simp: Let_def)

lemma inorder_leftRotation: "leftRotation t = Some t' \<Longrightarrow> inorder t' = inorder t"
  by (induction t rule: leftRotation.induct) (auto simp: Let_def)

lemma inorder_insert_rebalance: "insert_rebalance v t = Some t' \<Longrightarrow> inorder t' = inorder t"
  by (cases t) (auto simp: Let_def split: if_splits node.splits option.splits
      dest!: inorder_rightRotation inorder_leftRotation)

lemma inorder_remove_rebalance: "remove_rebalance t = Some t' \<Longrightarrow> inorder t' = inorder t"
  by (cases t) (auto simp: Let_def split: if_splits node.splits option.splits
      dest!: inorder_rightRotation inorder_leftRotation)

lemma bst_insert_rebalance: "insert_rebalance v t = Some t' \<Longrightarrow> bst t' = bst t"
  by (simp add: bst_iff_sorted inorder_insert_rebalance)

lemma bst_remove_rebalance: "remove_rebalance t = Some t' \<Longrightarrow> bst t' = bst t"
  by (simp add: bst_iff_sorted inorder_remove_rebalance)

lemma insert_avl_keys_bst:
  "insert_avl t v = Some t' \<Longrightarrow> bst t \<Longrightarrow> bst t' \<and> set (inorder t') = insert v (set (inorder t))"
proof (induction t arbitrary: t')
  case Null
  then show ?case by auto
next
  case (Node l k h r)
  show ?case
  proof (cases "v < k")
    case True
    with Node.prems obtain l' where l': "insert_avl l v = Some l'"
      and t': "insert_rebalance v (Node l' k h r) = Some t'"
      by (auto split: option.splits)
    from Node.IH(1)[OF l'] Node.prems(2)
    have "bst l'" "set (inorder l') = insert v (set (inorder l))" by auto
    with True Node.prems(2) have "bst (Node l' k h r)" by auto
    with t' show ?thesis
      using bst_insert_rebalance[OF t'] inorder_insert_rebalance[OF t']
        \<open>set (inorder l') = insert v (set (inorder l))\<close> by auto
  next
    case False
    show ?thesis
    proof (cases "k < v")
      case True
      with False Node.prems obtain r' where r': "insert_avl r v = Some r'"
        and t': "insert_rebalance v (Node l k h r') = Some t'"
        by (auto split: option.splits)
      from Node.IH(2)[OF r'] Node.prems(2)
      have *: "bst r'" "set (inorder r') = insert v (set (inorder r))" by auto
      with True Node.prems(2) have "bst (Node l k h r')" by auto
      with t' show ?thesis
        using bst_insert_rebalance[OF t'] inorder_insert_rebalance[OF t'] * by auto
    next
      case F2: False
      with False have "v = k" by simp
      with Node.prems have t': "insert_rebalance v (Node l k h r) = Some t'" by simp
      show ?thesis
        using bst_insert_rebalance[OF t'] inorder_insert_rebalance[OF t'] Node.prems(2) \<open>v = k\<close>
        by auto
    qed
  qed
qed

lemma detach_successor_bst:
  "detach_successor t = Some (sk, t') \<Longrightarrow> bst t \<Longrightarrow>
     bst t' \<and> set (inorder t') \<subseteq> set (inorder t) \<and> sk \<in> set (inorder t)
     \<and> (\<forall>x \<in> set (inorder t'). sk < x)"
proof (induction t arbitrary: sk t' rule: detach_successor.induct)
  case (1 a b c d lk lh lr k h r)
  then obtain l' where l': "detach_successor (Node (Node a b c d) lk lh lr) = Some (sk, l')"
    and t': "t' = Node l' k h r"
    by (auto split: option.splits)
  from "1.IH"[OF l'] "1.prems"(2)
  have *: "bst l'" "set (inorder l') \<subseteq> set (inorder (Node (Node a b c d) lk lh lr))"
    "sk \<in> set (inorder (Node (Node a b c d) lk lh lr))" "\<forall>x \<in> set (inorder l'). sk < x"
    by auto
  from "1.prems"(2) have lt: "\<forall>x \<in> set (inorder (Node (Node a b c d) lk lh lr)). x < k"
    and gt: "\<forall>x \<in> set (inorder r). k < x" and br: "bst r" by auto
  from lt * have skk: "sk < k" by blast
  have "bst t'" using * lt gt br t' by auto
  moreover have "set (inorder t') \<subseteq> set (inorder (Node (Node (Node a b c d) lk lh lr) k h r))"
    using * t' by auto
  moreover have "sk \<in> set (inorder (Node (Node (Node a b c d) lk lh lr) k h r))"
    using * by auto
  moreover have "\<forall>x \<in> set (inorder t'). sk < x"
    using * t' skk gt by auto
  ultimately show ?case by blast
next
  case (2 lk lh lr k h r)
  then show ?case by (auto intro: less_trans)
qed auto

lemma remove_avl_keys_bst:
  "remove_avl t v = Some t' \<Longrightarrow> bst t \<Longrightarrow> bst t' \<and> set (inorder t') \<subseteq> set (inorder t) - {v}"
proof (induction t arbitrary: t')
  case Null
  then show ?case by auto
next
  case (Node l k h r)
  show ?case
  proof (cases "v < k")
    case True
    with Node.prems obtain l' where l': "remove_avl l v = Some l'"
      and t': "remove_rebalance (Node l' k h r) = Some t'"
      by (auto split: option.splits)
    from Node.IH(1)[OF l'] Node.prems(2)
    have *: "bst l'" "set (inorder l') \<subseteq> set (inorder l) - {v}" by auto
    with True Node.prems(2) have "bst (Node l' k h r)" by auto
    then show ?thesis
      using bst_remove_rebalance[OF t'] inorder_remove_rebalance[OF t'] * True Node.prems(2)
      by auto
  next
    case False
    show ?thesis
    proof (cases "k < v")
      case True
      with False Node.prems obtain r' where r': "remove_avl r v = Some r'"
        and t': "remove_rebalance (Node l k h r') = Some t'"
        by (auto split: option.splits)
      from Node.IH(2)[OF r'] Node.prems(2)
      have *: "bst r'" "set (inorder r') \<subseteq> set (inorder r) - {v}" by auto
      with True Node.prems(2) have "bst (Node l k h r')" by auto
      then show ?thesis
        using bst_remove_rebalance[OF t'] inorder_remove_rebalance[OF t'] * True Node.prems(2)
        by auto
    next
      case F2: False
      with False have vk: "v = k" by simp
      from Node.prems(2) have nl: "v \<notin> set (inorder l)" and nr: "v \<notin> set (inorder r)"
        using vk by auto
      show ?thesis
      proof (cases r)
        case Null
        with Node.prems vk have t': "remove_rebalance l = Some t'" by simp
        show ?thesis
          using bst_remove_rebalance[OF t'] inorder_remove_rebalance[OF t'] Node.prems(2) nl
          by auto
      next
        case R: (Node rl rk rh rr)
        show ?thesis
        proof (cases l)
          case Null
          with R Node.prems vk have t': "remove_rebalance r = Some t'" by simp
          show ?thesis
            using bst_remove_rebalance[OF t'] inorder_remove_rebalance[OF t'] Node.prems(2) nr
            by auto
        next
          case L: (Node ll lk lh lr)
          show ?thesis
          proof (cases rl)
            case Null
            with R L Node.prems vk have t': "remove_rebalance (Node l rk h rr) = Some t'" by simp
            have "bst (Node l rk h rr)" using Node.prems(2) R Null by auto
            then show ?thesis
              using bst_remove_rebalance[OF t'] inorder_remove_rebalance[OF t'] Node.prems(2) nl nr R Null vk
              by auto
          next
            case RL: (Node rll rlk rlh rlr)
            with R L Node.prems vk obtain sk r' where d: "detach_successor r = Some (sk, r')"
              and t': "remove_rebalance (Node l sk h r') = Some t'"
              by (auto split: option.splits)
            from detach_successor_bst[OF d] Node.prems(2)
            have *: "bst r'" "set (inorder r') \<subseteq> set (inorder r)" "sk \<in> set (inorder r)"
              "\<forall>x \<in> set (inorder r'). sk < x" by auto
            have "bst (Node l sk h r')" using * Node.prems(2) by fastforce
            then show ?thesis
              using bst_remove_rebalance[OF t'] inorder_remove_rebalance[OF t'] * nl nr vk
              by auto
          qed
        qed
      qed
    qed
  qed
qed

section \<open>Cached heights stay positive, and remove never reads through a null pointer\<close>

lemma height_nonneg: "cached_positive t \<Longrightarrow> 0 \<le> height t"
  by (cases t) auto

lemma height_pos_iff: "cached_positive t \<Longrightarrow> (1 \<le> height t) = (t \<noteq> Null)"
  by (cases t) auto

lemma cached_positive_rightRotation:
  "rightRotation t = Some t' \<Longrightarrow> cached_positive t \<Longrightarrow> cached_positive t'"
proof (induction t rule: rightRotation.induct)
  case (1 ll lk lh lr k h r)
  then show ?case
    using height_nonneg[of lr] height_nonneg[of ll]
    by (auto simp: Let_def le_max_iff_disj)
qed auto

lemma cached_positive_leftRotation:
  "leftRotation t = Some t' \<Longrightarrow> cached_positive t \<Longrightarrow> cached_positive t'"
proof (induction t rule: leftRotation.induct)
  case (1 l k h rl rk rh rr)
  then show ?case
    using height_nonneg[of l] height_nonneg[of rr]
    by (auto simp: Let_def le_max_iff_disj)
qed auto

lemma cached_positive_recompute:
  "cached_positive l \<Longrightarrow> cached_positive r \<Longrightarrow>
   cached_positive (Node l k (1 + max (height l) (height r)) r)"
  using height_nonneg[of l] by (simp add: le_max_iff_disj)

lemma cached_positive_insert_rebalance:
  assumes "insert_rebalance v (Node l k h r) = Some t'" "cached_positive l" "cached_positive r"
  shows "cached_positive t'"
proof -
  let ?root = "Node l k (1 + max (height l) (height r)) r"
  have root: "cached_positive ?root" using assms(2,3) by (rule cached_positive_recompute)
  have dbl_l: "cached_positive (Node l' k (cached ?root) r)"
    if "leftRotation l = Some l'" for l'
    using that cached_positive_leftRotation[OF that] assms height_nonneg[of l]
    by (simp add: le_max_iff_disj)
  have dbl_r: "cached_positive (Node l k (cached ?root) r')"
    if "rightRotation r = Some r'" for r'
    using that cached_positive_rightRotation[OF that] assms height_nonneg[of l]
    by (simp add: le_max_iff_disj)
  from assms(1) show ?thesis
    using root dbl_l dbl_r
    by (auto simp: Let_def simp del: rightRotation.simps leftRotation.simps cached_positive.simps
        split: if_splits node.splits option.splits
        dest: cached_positive_rightRotation cached_positive_leftRotation)
qed

lemma cached_positive_remove_rebalance:
  assumes "remove_rebalance t = Some t'" "cached_positive t"
  shows "cached_positive t'"
proof (cases t)
  case Null
  with assms show ?thesis by simp
next
  case (Node l k h r)
  let ?root = "Node l k (1 + max (height l) (height r)) r"
  from Node assms have lr: "cached_positive l" "cached_positive r" by auto
  have root: "cached_positive ?root" using lr by (rule cached_positive_recompute)
  have dbl_l: "cached_positive (Node l' k (cached ?root) r)"
    if "leftRotation l = Some l'" for l'
    using that cached_positive_leftRotation[OF that] lr height_nonneg[of l]
    by (simp add: le_max_iff_disj)
  have dbl_r: "cached_positive (Node l k (cached ?root) r')"
    if "rightRotation r = Some r'" for r'
    using that cached_positive_rightRotation[OF that] lr height_nonneg[of l]
    by (simp add: le_max_iff_disj)
  from assms(1) Node show ?thesis
    using root dbl_l dbl_r
    by (auto simp: Let_def simp del: rightRotation.simps leftRotation.simps cached_positive.simps
        split: if_splits node.splits option.splits
        dest: cached_positive_rightRotation cached_positive_leftRotation)
qed

lemma cached_positive_insert_avl:
  "insert_avl t v = Some t' \<Longrightarrow> cached_positive t \<Longrightarrow> cached_positive t'"
proof (induction t arbitrary: t')
  case Null
  then show ?case by auto
next
  case (Node l k h r)
  then show ?case
    by (auto split: if_splits option.splits simp del: insert_rebalance.simps
        dest: cached_positive_insert_rebalance)
qed

lemma cached_positive_detach_successor:
  "detach_successor t = Some (sk, t') \<Longrightarrow> cached_positive t \<Longrightarrow> cached_positive t'"
  by (induction t arbitrary: sk t' rule: detach_successor.induct)
     (auto split: option.splits)

lemma cached_positive_remove_avl:
  "remove_avl t v = Some t' \<Longrightarrow> cached_positive t \<Longrightarrow> cached_positive t'"
proof (induction t arbitrary: t')
  case Null
  then show ?case by auto
next
  case (Node l k h r)
  have reb: "cached_positive t'" if "remove_rebalance u = Some t'" "cached_positive u" for u
    using that by (rule cached_positive_remove_rebalance)
  from Node.prems show ?case
    apply (simp split: if_splits option.splits node.splits del: remove_rebalance.simps detach_successor.simps)
    using Node.IH reb cached_positive_detach_successor
           apply (fastforce simp del: remove_rebalance.simps detach_successor.simps)+
    done
qed

lemma remove_rebalance_total:
  "cached_positive t \<Longrightarrow> \<exists>t'. remove_rebalance t = Some t'"
proof (cases t)
  case Null
  then show ?thesis by simp
next
  case (Node l k h r)
  assume cp: "cached_positive t"
  with Node have hl: "0 \<le> height l" and hr: "0 \<le> height r"
    by (auto dest: height_nonneg)
  show ?thesis
  proof (cases "height l - height r > 1")
    case True
    with hr have "l \<noteq> Null" by (cases l) auto
    then obtain ll lk lh lr where "l = Node ll lk lh lr" by (cases l) auto
    with True Node show ?thesis by (simp add: Let_def)
  next
    case False
    show ?thesis
    proof (cases "height l - height r < - 1")
      case True
      with hl have "r \<noteq> Null" by (cases r) auto
      then obtain rl rk rh rr where "r = Node rl rk rh rr" by (cases r) auto
      with True False Node show ?thesis by (simp add: Let_def)
    next
      case F2: False
      with False Node show ?thesis by (simp add: Let_def)
    qed
  qed
qed

lemma detach_successor_total:
  "\<exists>sk t'. detach_successor (Node (Node ll lk lh lr) k h r) = Some (sk, t')"
proof (induction ll arbitrary: lk lh lr k h r)
  case Null
  then show ?case by simp
next
  case (Node a b c d)
  from Node.IH(1)[of b c d lk lh lr]
  obtain sk t' where "detach_successor (Node (Node a b c d) lk lh lr) = Some (sk, t')" by blast
  then show ?case by simp
qed

lemma remove_avl_total:
  "cached_positive t \<Longrightarrow> \<exists>t'. remove_avl t v = Some t'"
proof (induction t)
  case Null
  then show ?case by simp
next
  case (Node l k h r)
  have reb: "\<exists>t'. remove_rebalance u = Some t'" if "cached_positive u" for u :: "'a node"
    using that by (rule remove_rebalance_total)
  show ?case
  proof (cases "v < k")
    case True
    from Node obtain l' where l': "remove_avl l v = Some l'" by auto
    with Node.prems have "cached_positive (Node l' k h r)"
      by (auto dest: cached_positive_remove_avl)
    from reb[OF this] l' True show ?thesis by simp
  next
    case False
    show ?thesis
    proof (cases "k < v")
      case True
      from Node obtain r' where r': "remove_avl r v = Some r'" by auto
      with Node.prems have "cached_positive (Node l k h r')"
        by (auto dest: cached_positive_remove_avl)
      from reb[OF this] r' True False show ?thesis by simp
    next
      case F2: False
      show ?thesis
      proof (cases r)
        case Null
        with Node.prems reb[of l] False F2 show ?thesis by simp
      next
        case R: (Node rl rk rh rr)
        show ?thesis
        proof (cases l)
          case Null
          with R Node.prems reb[of r] False F2 show ?thesis by simp
        next
          case L: (Node ll lk lh lr)
          show ?thesis
          proof (cases rl)
            case Null
            with R L Node.prems have "cached_positive (Node l rk h rr)" by simp
            from reb[OF this] R L Null False F2 show ?thesis by simp
          next
            case RL: (Node rll rlk rlh rlr)
            from detach_successor_total[of rll rlk rlh rlr rk rh rr] R RL
            obtain sk r' where d: "detach_successor r = Some (sk, r')" by auto
            with Node.prems have "cached_positive r'"
              by (auto dest: cached_positive_detach_successor simp del: detach_successor.simps)
            with Node.prems have "cached_positive (Node l sk h r')" by simp
            from reb[OF this] d R L RL False F2 show ?thesis
              by (auto simp del: remove_rebalance.simps detach_successor.simps)
          qed
        qed
      qed
    qed
  qed
qed

lemma run_calls_bst: "run_calls t cs = Some t' \<Longrightarrow> bst t \<Longrightarrow> bst t'"
proof (induction cs arbitrary: t)
  case Nil
  then show ?case by simp
next
  case (Cons c cs)
  then obtain u where u: "run_call t c = Some u" and rest: "run_calls u cs = Some t'"
    by (auto split: option.splits)
  have "bst u"
  proof (cases c)
    case (Insert v)
    with u Cons.prems(2) show ?thesis using insert_avl_keys_bst[of t v u] by simp
  next
    case (Remove v)
    with u Cons.prems(2) show ?thesis using remove_avl_keys_bst[of t v u] by simp
  qed
  with Cons.IH rest show ?case by blast
qed

lemma run_calls_cached_positive:
  "run_calls t cs = Some t' \<Longrightarrow> cached_positive t \<Longrightarrow> cached_positive t'"
proof (induction cs arbitrary: t)
  case Nil
  then show ?case by simp
next
  case (Cons c cs)
  then obtain u where u: "run_call t c = Some u" and rest: "run_calls u cs = Some t'"
    by (auto split: option.splits)
  have "cached_positive u"
    using u Cons.prems(2)
    by (cases c) (auto dest: cached_positive_insert_avl cached_positive_remove_avl)
  with Cons.IH rest show ?case by blast
qed

lemma reachable_root_height:
  "run_calls Null cs = Some t \<Longrightarrow> t \<noteq> Null \<Longrightarrow> 1 \<le> height t"
  using run_calls_cached_positive[of Null cs t] by (simp add: height_pos_iff)

lemma reachable_remove_returns:
  "run_calls Null cs = Some t \<Longrightarrow> \<exists>t'. remove_avl t v = Some t'"
  using run_calls_cached_positive[of Null cs t] by (simp add: remove_avl_total)

lemma bst_distinct: "bst t \<Longrightarrow> distinct (inorder t)"
  by (simp add: bst_iff_sorted strict_sorted_iff)

text \<open>
  C5. After every sequence of insert and remove calls, started on the empty tree, that
  has returned (a call that reads through a null pointer returns nothing), every
  node's key is strictly above every key of its left subtree and strictly below every
  key of its right subtree, and no two nodes of the tree hold the same key.
\<close>

theorem bst_after_calls:
  "run_calls Null cs = Some t \<Longrightarrow> bst t \<and> distinct (inorder t)"
  using run_calls_bst[of Null cs t] by (simp add: bst_distinct)

theorem bst_after_calls_witness:
  "run_calls Null [Insert 20, Insert 10, Insert 30, Insert 25, Insert 35, Remove 20]
     = Some (Node (Node Null 10 1 Null) (25::int) 3 (Node Null 30 2 (Node Null 35 1 Null)))
   \<and> bst (Node (Node Null 10 1 Null) (25::int) 3 (Node Null 30 2 (Node Null 35 1 Null)))
   \<and> distinct (inorder (Node (Node Null 10 1 Null) (25::int) 3 (Node Null 30 2 (Node Null 35 1 Null))))"
proof -
  have run: "run_calls Null [Insert 20, Insert 10, Insert 30, Insert 25, Insert 35, Remove 20]
     = Some (Node (Node Null 10 1 Null) (25::int) 3 (Node Null 30 2 (Node Null 35 1 Null)))"
    by simp
  from bst_after_calls[OF run] run show ?thesis by blast
qed

section \<open>The rotation choice of remove\<close>

text \<open>
  C10. In the rebalancing step of remove, a balance above 1 makes the guard
  \<open>height left \<ge> height right\<close> true and a balance below \<open>-1\<close> makes the guard
  \<open>height right \<ge> height left\<close> true, so neither double-rotation branch is ever
  taken: the step is a single right rotation, a single left rotation, or no rotation.
\<close>

theorem remove_rebalance_single_rotation:
  "(height l - height r > 1 \<longrightarrow> height l \<ge> height r) \<and>
   (height l - height r < - 1 \<longrightarrow> height r \<ge> height l) \<and>
   remove_rebalance (Node l k h r) =
     (if height l - height r > 1 then rightRotation (Node l k (1 + max (height l) (height r)) r)
      else if height l - height r < - 1 then leftRotation (Node l k (1 + max (height l) (height r)) r)
      else Some (Node l k (1 + max (height l) (height r)) r))"
  by (simp add: Let_def)

theorem remove_rebalance_single_rotation_witness:
  "height (Node Null (2::int) 2 (Node Null 3 1 Null)) - height (Null :: int node) > 1
   \<and> height (Node Null (2::int) 2 (Node Null 3 1 Null)) \<ge> height (Null :: int node)
   \<and> remove_rebalance (Node (Node Null 2 2 (Node Null 3 1 Null)) (4::int) 3 Null)
       = rightRotation (Node (Node Null 2 2 (Node Null 3 1 Null)) 4 3 Null)
   \<and> height (Null :: int node) - height (Node (Node Null (3::int) 1 Null) 4 2 Null) < - 1
   \<and> height (Node (Node Null (3::int) 1 Null) 4 2 Null) \<ge> height (Null :: int node)
   \<and> remove_rebalance (Node Null (2::int) 3 (Node (Node Null 3 1 Null) 4 2 Null))
       = leftRotation (Node Null 2 3 (Node (Node Null 3 1 Null) 4 2 Null))"
  using remove_rebalance_single_rotation
          [of "Node Null (2::int) 2 (Node Null 3 1 Null)" Null 4 3]
        remove_rebalance_single_rotation
          [of Null "Node (Node Null (3::int) 1 Null) 4 2 Null" 2 3]
  by simp

section \<open>The grid holds every slot of every level\<close>

lemma length_slots [simp]: "length (slots t d) = 2 ^ d"
  by (induction d arbitrary: t) auto

lemma slots_Null: "i < 2 ^ d \<Longrightarrow> slots Null d ! i = Null"
  by (induction d arbitrary: i) (auto simp: nth_append)

lemma slots_nth_key:
  "i < 2 ^ d \<Longrightarrow>
   slot_key t d i = (case slots t d ! i of Null \<Rightarrow> None | Node l k h r \<Rightarrow> Some k)"
proof (induction d arbitrary: t i)
  case 0
  then show ?case by (cases t) auto
next
  case (Suc d)
  show ?case
  proof (cases t)
    case Null
    from Suc.prems have e: "slots Null (Suc d) ! i = Null" by (rule slots_Null)
    show ?thesis unfolding Null e by simp
  next
    case (Node l k h r)
    show ?thesis
    proof (cases "i < 2 ^ d")
      case True
      with Node Suc.IH[of i l] show ?thesis by (simp add: nth_append)
    next
      case False
      with Suc.prems have "i - 2 ^ d < 2 ^ d" by simp
      with False Node Suc.IH[of "i - 2 ^ d" r] show ?thesis by (simp add: nth_append)
    qed
  qed
qed

lemma length_fill [simp]: "length (fill t d rows) = length rows"
  by (simp add: fill_def)

lemma fill_nth: "j < length rows \<Longrightarrow>
  fill t d rows ! j = (if d \<le> j then rows ! j @ slots t (j - d) else rows ! j)"
  by (simp add: fill_def)

lemma length_push_row [simp]: "length (push_row rows d x) = length rows"
  by (simp add: push_row_def)

lemma push_row_nth: "j < length rows \<Longrightarrow>
  push_row rows d x ! j = (if j = d then rows ! d @ [x] else rows ! j)"
  by (auto simp: push_row_def)

lemma push_row_last_level: "d < length rows \<Longrightarrow> length rows = Suc d \<Longrightarrow> push_row rows d t = fill t d rows"
  by (rule nth_equalityI) (auto simp: fill_nth push_row_nth less_Suc_eq)

lemma fill_children:
  assumes "d < length rows"
  shows "fill (right_of t) (Suc d) (fill (left_of t) (Suc d) (push_row rows d t)) = fill t d rows"
proof (rule nth_equalityI)
  show "length (fill (right_of t) (Suc d) (fill (left_of t) (Suc d) (push_row rows d t)))
        = length (fill t d rows)" by simp
next
  fix j assume "j < length (fill (right_of t) (Suc d) (fill (left_of t) (Suc d) (push_row rows d t)))"
  then have j: "j < length rows" by simp
  consider "j < d" | "j = d" | "d < j" by linarith
  then show "fill (right_of t) (Suc d) (fill (left_of t) (Suc d) (push_row rows d t)) ! j
        = fill t d rows ! j"
  proof cases
    case 1 then show ?thesis using j by (simp add: fill_nth push_row_nth)
  next
    case 2 then show ?thesis using j by (simp add: fill_nth push_row_nth)
  next
    case 3
    then obtain e where e: "j - d = Suc e" "j - Suc d = e" by (cases "j - d") auto
    with 3 j show ?thesis by (simp add: fill_nth push_row_nth)
  qed
qed

lemma grid_loop_subtree:
  "length st = d \<Longrightarrow> d + k + 1 = m \<Longrightarrow> length rows = m \<Longrightarrow>
   (\<forall>j. d < j \<and> j < m \<longrightarrow> even (length (rows ! j))) \<Longrightarrow>
   grid_loop m t d st rows =
     (if d = 0 then Some (fill t d rows)
      else grid_loop m (if d + 1 = m then t else last st) (d - 1) st (fill t d rows))"
proof (induction k arbitrary: t d st rows)
  case 0
  then have "d + 1 = m" "d < length rows" "length rows = Suc d" by auto
  then show ?case
    by (subst grid_loop.simps) (simp add: push_row_last_level)
next
  case (Suc k)
  let ?st = "st @ [t]"
  let ?rows1 = "push_row rows d t"
  let ?R1 = "fill (left_of t) (Suc d) ?rows1"
  let ?R2 = "fill (right_of t) (Suc d) ?R1"
  from Suc.prems have dm: "d + 1 \<noteq> m" "d + 1 < m" "d < length rows" by auto
  have par1: "\<forall>j. Suc d < j \<and> j < m \<longrightarrow> even (length (?rows1 ! j))"
    using Suc.prems by (auto simp: push_row_nth)
  have step1: "grid_loop m t d st rows = grid_loop m (left_of t) (Suc d) ?st ?rows1"
    using Suc.prems dm by (subst grid_loop.simps) simp
  have ih1: "grid_loop m (left_of t) (Suc d) ?st ?rows1
      = grid_loop m (if Suc d + 1 = m then left_of t else last ?st) d ?st ?R1"
    using Suc.IH[of ?st "Suc d" ?rows1 "left_of t"] Suc.prems par1 by simp
  have odd1: "odd (length (?R1 ! Suc d))"
    using Suc.prems dm by (simp add: fill_nth push_row_nth)
  have step2: "grid_loop m c d ?st ?R1 = grid_loop m (right_of t) (Suc d) ?st ?R1" for c
    using Suc.prems dm odd1 by (subst grid_loop.simps) simp
  have par2: "\<forall>j. Suc d < j \<and> j < m \<longrightarrow> even (length (?R1 ! j))"
    using Suc.prems by (auto simp: fill_nth push_row_nth)
  have ih2: "grid_loop m (right_of t) (Suc d) ?st ?R1
      = grid_loop m (if Suc d + 1 = m then right_of t else last ?st) d ?st ?R2"
    using Suc.IH[of ?st "Suc d" ?R1 "right_of t"] Suc.prems par2 by simp
  have even2: "even (length (?R2 ! Suc d))"
    using Suc.prems dm by (simp add: fill_nth push_row_nth)
  have step3: "grid_loop m c d ?st ?R2 =
      (if d = 0 then Some ?R2 else grid_loop m (last st) (d - 1) st ?R2)" for c
    using Suc.prems dm even2 by (subst grid_loop.simps) auto
  have R2: "?R2 = fill t d rows" using dm by (simp add: fill_children)
  have "grid_loop m t d st rows = grid_loop m (left_of t) (Suc d) ?st ?rows1"
    by (rule step1)
  also have "\<dots> = grid_loop m (if Suc d + 1 = m then left_of t else last ?st) d ?st ?R1"
    by (rule ih1)
  also have "\<dots> = grid_loop m (right_of t) (Suc d) ?st ?R1"
    by (rule step2)
  also have "\<dots> = grid_loop m (if Suc d + 1 = m then right_of t else last ?st) d ?st ?R2"
    by (rule ih2)
  also have "\<dots> = (if d = 0 then Some ?R2 else grid_loop m (last st) (d - 1) st ?R2)"
    by (rule step3)
  also have "\<dots> = (if d = 0 then Some (fill t d rows)
                     else grid_loop m (if d + 1 = m then t else last st) (d - 1) st (fill t d rows))"
    unfolding R2 using dm by simp
  finally show ?case .
qed

lemma fill_root: "fill t 0 (replicate m []) = map (slots t) [0..<m]"
  by (rule nth_equalityI) (auto simp: fill_nth)

lemma grid_loop_root: "0 < m \<Longrightarrow> grid_loop m t 0 [] (replicate m []) = Some (map (slots t) [0..<m])"
  using grid_loop_subtree[of "[]" 0 "m - 1" m "replicate m []" t] by (simp add: fill_root)

lemma generateDisplayGrid_eq:
  "1 \<le> height t \<Longrightarrow>
   generateDisplayGrid to_string t = Some (map (\<lambda>d. map (cell_of to_string) (slots t d)) [0..<nat (height t)])"
  by (cases t) (auto simp: generateDisplayGrid_def grid_loop_root cell_of_def)

lemma cell_of_fields:
  "present (cell_of to_string pn) = (pn \<noteq> Null)"
  "cell_value (cell_of to_string pn) = (case pn of Null \<Rightarrow> [] | Node l k h r \<Rightarrow> to_string k)"
  by (cases pn; simp add: cell_of_def absent_cell_def present_cell_def)+

text \<open>
  C7. For every non-empty tree of (cached) height \<open>h\<close>, the display grid has \<open>h\<close>
  rows and row \<open>d\<close> has exactly \<open>2 ^ d\<close> cells; cell \<open>i\<close> of row \<open>d\<close> has its \<open>present\<close>
  field set exactly when the tree has a node in slot \<open>i\<close> of level \<open>d\<close>, and its value
  is then the stringified key of that node; where no node is there, slots under a
  shallower leaf included, the cell is not present and its value is empty. Every
  non-empty tree the operations build has root height at least 1
  (\<open>reachable_root_height\<close>).
\<close>

theorem generateDisplayGrid_slots:
  assumes "t \<noteq> Null" and "1 \<le> height t"
  shows "\<exists>grid. generateDisplayGrid to_string t = Some grid
           \<and> length grid = nat (height t)
           \<and> (\<forall>d < nat (height t). length (grid ! d) = 2 ^ d
                \<and> (\<forall>i < 2 ^ d.
                      present (grid ! d ! i) = (slot_key t d i \<noteq> None)
                      \<and> cell_value (grid ! d ! i) =
                          (case slot_key t d i of None \<Rightarrow> [] | Some k \<Rightarrow> to_string k)))"
proof -
  let ?grid = "map (\<lambda>d. map (cell_of to_string) (slots t d)) [0..<nat (height t)]"
  have g: "generateDisplayGrid to_string t = Some ?grid"
    using assms(2) by (rule generateDisplayGrid_eq)
  have cells: "present (?grid ! d ! i) = (slot_key t d i \<noteq> None)
      \<and> cell_value (?grid ! d ! i) =
          (case slot_key t d i of None \<Rightarrow> [] | Some k \<Rightarrow> to_string k)"
    if "d < nat (height t)" "i < 2 ^ d" for d i
  proof -
    from that have "?grid ! d ! i = cell_of to_string (slots t d ! i)" by simp
    then show ?thesis
      using slots_nth_key[OF that(2), of t]
      by (cases "slots t d ! i") (simp_all add: cell_of_fields)
  qed
  have "length ?grid = nat (height t)" by simp
  moreover have "\<forall>d < nat (height t). length (?grid ! d) = 2 ^ d
                \<and> (\<forall>i < 2 ^ d.
                      present (?grid ! d ! i) = (slot_key t d i \<noteq> None)
                      \<and> cell_value (?grid ! d ! i) =
                          (case slot_key t d i of None \<Rightarrow> [] | Some k \<Rightarrow> to_string k))"
    using cells by simp
  ultimately show ?thesis using g by blast
qed

theorem generateDisplayGrid_slots_witness:
  "Node (Node Null 10 1 Null) (25::int) 3 (Node Null 30 2 (Node Null 35 1 Null)) \<noteq> Null
   \<and> 1 \<le> height (Node (Node Null 10 1 Null) (25::int) 3 (Node Null 30 2 (Node Null 35 1 Null)))
   \<and> (\<exists>grid. generateDisplayGrid show_int
                (Node (Node Null 10 1 Null) 25 3 (Node Null 30 2 (Node Null 35 1 Null))) = Some grid
         \<and> length grid = 3
         \<and> length (grid ! 0) = 1 \<and> length (grid ! 1) = 2 \<and> length (grid ! 2) = 4
         \<and> present (grid ! 0 ! 0) \<and> cell_value (grid ! 0 ! 0) = ''25''
         \<and> present (grid ! 1 ! 0) \<and> cell_value (grid ! 1 ! 0) = ''10''
         \<and> present (grid ! 1 ! 1) \<and> cell_value (grid ! 1 ! 1) = ''30''
         \<and> \<not> present (grid ! 2 ! 0) \<and> cell_value (grid ! 2 ! 0) = []
         \<and> \<not> present (grid ! 2 ! 1) \<and> cell_value (grid ! 2 ! 1) = []
         \<and> \<not> present (grid ! 2 ! 2) \<and> cell_value (grid ! 2 ! 2) = []
         \<and> present (grid ! 2 ! 3) \<and> cell_value (grid ! 2 ! 3) = ''35'')"
proof -
  let ?t = "Node (Node Null 10 1 Null) (25::int) 3 (Node Null 30 2 (Node Null 35 1 Null))"
  have ne: "?t \<noteq> Null" and h: "1 \<le> height ?t" by simp_all
  from generateDisplayGrid_slots[OF ne h, of show_int]
  obtain grid where g: "generateDisplayGrid show_int ?t = Some grid" "length grid = 3"
    and cells: "\<forall>d < 3. length (grid ! d) = 2 ^ d
                \<and> (\<forall>i < 2 ^ d.
                      present (grid ! d ! i) = (slot_key ?t d i \<noteq> None)
                      \<and> cell_value (grid ! d ! i) =
                          (case slot_key ?t d i of None \<Rightarrow> [] | Some k \<Rightarrow> show_int k))"
    by auto
  have two: "(2::nat) = Suc (Suc 0)" by simp
  have shown: "show_int 25 = ''25''" "show_int 10 = ''10''" "show_int 30 = ''30''"
    "show_int 35 = ''35''"
    by (simp_all add: show_int_def show_nat.simps)
  from cells have row0: "length (grid ! 0) = 1"
    and at0: "\<forall>i < 1. present (grid ! 0 ! i) = (slot_key ?t 0 i \<noteq> None)
                \<and> cell_value (grid ! 0 ! i) =
                    (case slot_key ?t 0 i of None \<Rightarrow> [] | Some k \<Rightarrow> show_int k)"
    by simp_all
  from cells have row1: "length (grid ! 1) = 2"
    and at1: "\<forall>i < 2. present (grid ! 1 ! i) = (slot_key ?t 1 i \<noteq> None)
                \<and> cell_value (grid ! 1 ! i) =
                    (case slot_key ?t 1 i of None \<Rightarrow> [] | Some k \<Rightarrow> show_int k)"
    by simp_all
  from cells have row2: "length (grid ! 2) = 4"
    and at2: "\<forall>i < 4. present (grid ! 2 ! i) = (slot_key ?t 2 i \<noteq> None)
                \<and> cell_value (grid ! 2 ! i) =
                    (case slot_key ?t 2 i of None \<Rightarrow> [] | Some k \<Rightarrow> show_int k)"
    by simp_all
  from at0 have c0: "present (grid ! 0 ! 0)" "cell_value (grid ! 0 ! 0) = ''25''"
    by (simp_all add: shown)
  from at1 have c1: "present (grid ! 1 ! 0)" "cell_value (grid ! 1 ! 0) = ''10''"
    "present (grid ! 1 ! 1)" "cell_value (grid ! 1 ! 1) = ''30''"
    by (simp_all add: shown)
  from at2 have c2: "\<not> present (grid ! 2 ! 0)" "cell_value (grid ! 2 ! 0) = []"
    "\<not> present (grid ! 2 ! 1)" "cell_value (grid ! 2 ! 1) = []"
    "\<not> present (grid ! 2 ! 2)" "cell_value (grid ! 2 ! 2) = []"
    "present (grid ! 2 ! 3)" "cell_value (grid ! 2 ! 3) = ''35''"
    by (simp_all add: two shown)
  from g row0 row1 row2 c0 c1 c2 ne h show ?thesis by blast
qed

section \<open>What holds as long as the height and balance invariants hold\<close>

text \<open>
  On a tree whose cached heights are right and whose nodes are balanced, insert
  returns, and returns such a tree again: where the subtree it descended into grew
  and the balance left the range, the comparison of the value with the heavy
  child's key picks the rotation that restores it. So every tree built by inserts
  alone satisfies both invariants, inserting a key it holds and removing a key it
  does not hold change nothing, and search finds exactly the keys inserted.
\<close>

lemma heights_ok_nonneg: "heights_ok t \<Longrightarrow> 0 \<le> height t"
  by (induction t) (auto simp: le_max_iff_disj)

lemma heights_ok_pos: "heights_ok t \<Longrightarrow> t \<noteq> Null \<Longrightarrow> 1 \<le> height t"
  by (cases t) (auto simp: le_max_iff_disj dest: heights_ok_nonneg)

lemma heights_ok_Null: "heights_ok t \<Longrightarrow> height t \<le> 0 \<Longrightarrow> t = Null"
  using heights_ok_pos[of t] by (cases t) auto

lemma insert_rebalance_in_range:
  "\<bar>height l - height r\<bar> \<le> 1 \<Longrightarrow>
   insert_rebalance v (Node l k h r) = Some (Node l k (1 + max (height l) (height r)) r)"
  by (auto simp: Let_def)

lemma insert_rebalance_left_single:
  assumes "heights_ok (Node ll lk lh lr)" "balanced (Node ll lk lh lr)"
    and "heights_ok r" "balanced r"
    and "lh = height r + 2" "v < lk" "height ll = height lr + 1"
  shows "\<exists>t'. insert_rebalance v (Node (Node ll lk lh lr) k h r) = Some t'
          \<and> heights_ok t' \<and> balanced t' \<and> height t' = height r + 2"
  using assms by (auto simp: Let_def max_def abs_if split: if_splits)

lemma insert_rebalance_left_double:
  assumes "heights_ok (Node ll lk lh lr)" "balanced (Node ll lk lh lr)"
    and "heights_ok r" "balanced r"
    and "lh = height r + 2" "\<not> v < lk" "height lr = height ll + 1"
  shows "\<exists>t'. insert_rebalance v (Node (Node ll lk lh lr) k h r) = Some t'
          \<and> heights_ok t' \<and> balanced t' \<and> height t' = height r + 2"
proof -
  from assms have "heights_ok lr" "0 \<le> height ll" by (auto dest: heights_ok_nonneg)
  with assms(7) have "lr \<noteq> Null" by (cases lr) auto
  then obtain a x xh b where lr: "lr = Node a x xh b" by (cases lr) auto
  with assms show ?thesis
    by (auto simp: Let_def max_def abs_if split: if_splits)
qed

lemma insert_rebalance_right_single:
  assumes "heights_ok (Node rl rk rh rr)" "balanced (Node rl rk rh rr)"
    and "heights_ok l" "balanced l"
    and "rh = height l + 2" "v > rk" "height rr = height rl + 1"
  shows "\<exists>t'. insert_rebalance v (Node l k h (Node rl rk rh rr)) = Some t'
          \<and> heights_ok t' \<and> balanced t' \<and> height t' = height l + 2"
  using assms by (auto simp: Let_def max_def abs_if split: if_splits)

lemma insert_rebalance_right_double:
  assumes "heights_ok (Node rl rk rh rr)" "balanced (Node rl rk rh rr)"
    and "heights_ok l" "balanced l"
    and "rh = height l + 2" "\<not> v > rk" "height rl = height rr + 1"
  shows "\<exists>t'. insert_rebalance v (Node l k h (Node rl rk rh rr)) = Some t'
          \<and> heights_ok t' \<and> balanced t' \<and> height t' = height l + 2"
proof -
  from assms have "heights_ok rl" "0 \<le> height rr" by (auto dest: heights_ok_nonneg)
  with assms(7) have "rl \<noteq> Null" by (cases rl) auto
  then obtain a x xh b where rl: "rl = Node a x xh b" by (cases rl) auto
  with assms show ?thesis
    by (auto simp: Let_def max_def abs_if split: if_splits)
qed

lemma insert_into_left:
  assumes node: "heights_ok (Node l k h r)" "balanced (Node l k h r)"
    and l': "heights_ok l'" "balanced l'" "height l' = height l \<or> height l' = height l + 1"
    and grew: "l \<noteq> Null \<and> height l' = height l + 1 \<longrightarrow>
                 key l' = key l \<and> l' \<noteq> Null \<and> v \<noteq> key l \<and>
                 (if v < key l then height (left_of l') = height (right_of l') + 1
                  else height (right_of l') = height (left_of l') + 1)"
  shows "\<exists>t'. insert_rebalance v (Node l' k h r) = Some t' \<and> heights_ok t' \<and> balanced t'
           \<and> (height t' = h \<or> height t' = h + 1)
           \<and> (height t' = h + 1 \<longrightarrow>
                 key t' = k \<and> t' \<noteq> Null \<and> height (left_of t') = height (right_of t') + 1)"
proof (cases "\<bar>height l' - height r\<bar> \<le> 1")
  case True
  let ?t' = "Node l' k (1 + max (height l') (height r)) r"
  have "insert_rebalance v (Node l' k h r) = Some ?t'"
    using True by (rule insert_rebalance_in_range)
  moreover have "heights_ok ?t'" "balanced ?t'" using node l' True by auto
  moreover have "height ?t' = h \<or> height ?t' = h + 1" using node l'(3) by (auto simp: max_def)
  moreover have "height ?t' = h + 1 \<longrightarrow> height (left_of ?t') = height (right_of ?t') + 1"
    using node l'(3) True by (auto simp: max_def abs_if split: if_splits)
  ultimately show ?thesis by simp
next
  case False
  from node have hr: "0 \<le> height r" and hl: "0 \<le> height l"
    and bal: "\<bar>height l - height r\<bar> \<le> 1" and h: "h = 1 + max (height l) (height r)"
    by (auto dest: heights_ok_nonneg)
  from False l'(3) bal have up: "height l' = height l + 1" and lr: "height l = height r + 1"
    by (auto simp: abs_if split: if_splits)
  from lr hr have "l \<noteq> Null" by (cases l) auto
  with grew up have g: "l' \<noteq> Null" "v \<noteq> key l'"
    "if v < key l' then height (left_of l') = height (right_of l') + 1
     else height (right_of l') = height (left_of l') + 1"
    by auto
  from g(1) obtain ll lk lh lr' where L: "l' = Node ll lk lh lr'" by (cases l') auto
  from up lr L have lh: "lh = height r + 2" by simp
  from node have r: "heights_ok r" "balanced r" by auto
  from h lr have hh: "h = height r + 2" by simp
  show ?thesis
  proof (cases "v < lk")
    case True
    with g(3) L have "height ll = height lr' + 1" by simp
    from insert_rebalance_left_single[OF l'(1,2)[unfolded L] r lh True this, of k h]
    show ?thesis using L hh by auto
  next
    case F: False
    with g(3) L have "height lr' = height ll + 1" by simp
    from insert_rebalance_left_double[OF l'(1,2)[unfolded L] r lh F this, of k h]
    show ?thesis using L hh by auto
  qed
qed

lemma insert_into_right:
  assumes node: "heights_ok (Node l k h r)" "balanced (Node l k h r)"
    and r': "heights_ok r'" "balanced r'" "height r' = height r \<or> height r' = height r + 1"
    and grew: "r \<noteq> Null \<and> height r' = height r + 1 \<longrightarrow>
                 key r' = key r \<and> r' \<noteq> Null \<and> v \<noteq> key r \<and>
                 (if v < key r then height (left_of r') = height (right_of r') + 1
                  else height (right_of r') = height (left_of r') + 1)"
  shows "\<exists>t'. insert_rebalance v (Node l k h r') = Some t' \<and> heights_ok t' \<and> balanced t'
           \<and> (height t' = h \<or> height t' = h + 1)
           \<and> (height t' = h + 1 \<longrightarrow>
                 key t' = k \<and> t' \<noteq> Null \<and> height (right_of t') = height (left_of t') + 1)"
proof (cases "\<bar>height l - height r'\<bar> \<le> 1")
  case True
  let ?t' = "Node l k (1 + max (height l) (height r')) r'"
  have "insert_rebalance v (Node l k h r') = Some ?t'"
    using True by (rule insert_rebalance_in_range)
  moreover have "heights_ok ?t'" "balanced ?t'" using node r' True by auto
  moreover have "height ?t' = h \<or> height ?t' = h + 1" using node r'(3) by (auto simp: max_def)
  moreover have "height ?t' = h + 1 \<longrightarrow> height (right_of ?t') = height (left_of ?t') + 1"
    using node r'(3) True by (auto simp: max_def abs_if split: if_splits)
  ultimately show ?thesis by simp
next
  case False
  from node have hr: "0 \<le> height r" and hl: "0 \<le> height l"
    and bal: "\<bar>height l - height r\<bar> \<le> 1" and h: "h = 1 + max (height l) (height r)"
    by (auto dest: heights_ok_nonneg)
  from False r'(3) bal have up: "height r' = height r + 1" and rl: "height r = height l + 1"
    by (auto simp: abs_if split: if_splits)
  from rl hl have "r \<noteq> Null" by (cases r) auto
  with grew up have g: "r' \<noteq> Null" "v \<noteq> key r'"
    "if v < key r' then height (left_of r') = height (right_of r') + 1
     else height (right_of r') = height (left_of r') + 1"
    by auto
  from g(1) obtain rl' rk rh rr where R: "r' = Node rl' rk rh rr" by (cases r') auto
  from up rl R have rh: "rh = height l + 2" by simp
  from node have l: "heights_ok l" "balanced l" by auto
  from h rl have hh: "h = height l + 2" by simp
  show ?thesis
  proof (cases "v > rk")
    case True
    with g(3) R have "height rr = height rl' + 1" by (auto split: if_splits)
    from insert_rebalance_right_single[OF r'(1,2)[unfolded R] l rh True this, of k h]
    show ?thesis using R hh by auto
  next
    case F: False
    with g(2) R have "v < rk" by simp
    with g(3) R have "height rl' = height rr + 1" by simp
    from insert_rebalance_right_double[OF r'(1,2)[unfolded R] l rh F this, of k h]
    show ?thesis using R hh by auto
  qed
qed

lemma insert_avl_invariants:
  "heights_ok t \<Longrightarrow> balanced t \<Longrightarrow>
   \<exists>t'. insert_avl t v = Some t' \<and> heights_ok t' \<and> balanced t'
        \<and> (height t' = height t \<or> height t' = height t + 1)
        \<and> (t \<noteq> Null \<and> height t' = height t + 1 \<longrightarrow>
             key t' = key t \<and> t' \<noteq> Null \<and> v \<noteq> key t \<and>
             (if v < key t then height (left_of t') = height (right_of t') + 1
              else height (right_of t') = height (left_of t') + 1))"
proof (induction t)
  case Null
  then show ?case by simp
next
  case (Node l k h r)
  from Node.prems have sub: "heights_ok l" "balanced l" "heights_ok r" "balanced r" by auto
  show ?case
  proof (cases "v < k")
    case True
    from Node.IH(1)[OF sub(1,2)] obtain l' where l': "insert_avl l v = Some l'"
      "heights_ok l'" "balanced l'" "height l' = height l \<or> height l' = height l + 1"
      "l \<noteq> Null \<and> height l' = height l + 1 \<longrightarrow>
                 key l' = key l \<and> l' \<noteq> Null \<and> v \<noteq> key l \<and>
                 (if v < key l then height (left_of l') = height (right_of l') + 1
                  else height (right_of l') = height (left_of l') + 1)"
      by blast
    from insert_into_left[OF Node.prems l'(2-5)] l'(1) True
    show ?thesis by auto
  next
    case False
    show ?thesis
    proof (cases "k < v")
      case True
      from Node.IH(2)[OF sub(3,4)] obtain r' where r': "insert_avl r v = Some r'"
        "heights_ok r'" "balanced r'" "height r' = height r \<or> height r' = height r + 1"
        "r \<noteq> Null \<and> height r' = height r + 1 \<longrightarrow>
                 key r' = key r \<and> r' \<noteq> Null \<and> v \<noteq> key r \<and>
                 (if v < key r then height (left_of r') = height (right_of r') + 1
                  else height (right_of r') = height (left_of r') + 1)"
        by blast
      from insert_into_right[OF Node.prems r'(2-5)] r'(1) True False
      show ?thesis by auto
    next
      case F2: False
      from Node.prems have "\<bar>height l - height r\<bar> \<le> 1" and h: "h = 1 + max (height l) (height r)"
        by auto
      then have "insert_rebalance v (Node l k h r) = Some (Node l k h r)"
        using insert_rebalance_in_range[of l r v k h] by simp
      with False F2 have "insert_avl (Node l k h r) v = Some (Node l k h r)"
        by (simp del: insert_rebalance.simps)
      with Node.prems show ?thesis by simp
    qed
  qed
qed

lemma run_inserts_invariants:
  "heights_ok t \<Longrightarrow> balanced t \<Longrightarrow>
   \<exists>t'. run_calls t (map Insert vs) = Some t' \<and> heights_ok t' \<and> balanced t'"
proof (induction vs arbitrary: t)
  case Nil
  then show ?case by simp
next
  case (Cons v vs)
  from insert_avl_invariants[OF Cons.prems, of v]
  obtain u where u: "insert_avl t v = Some u" "heights_ok u" "balanced u" by blast
  from Cons.IH[OF u(2,3)] u(1) show ?case by simp
qed

lemma inserts_only_keep_invariants:
  "\<exists>t. run_calls Null (map Insert vs) = Some t \<and> heights_ok t \<and> balanced t"
  using run_inserts_invariants[of Null vs] by simp

lemma remove_rebalance_in_range:
  "\<bar>height l - height r\<bar> \<le> 1 \<Longrightarrow>
   remove_rebalance (Node l k h r) = Some (Node l k (1 + max (height l) (height r)) r)"
  by (auto simp: Let_def)

lemma insert_present_unchanged:
  "heights_ok t \<Longrightarrow> balanced t \<Longrightarrow> bst t \<Longrightarrow> v \<in> set (inorder t) \<Longrightarrow> insert_avl t v = Some t"
proof (induction t)
  case Null
  then show ?case by simp
next
  case (Node l k h r)
  from Node.prems have same: "insert_rebalance v (Node l k h r) = Some (Node l k h r)"
    using insert_rebalance_in_range[of l r v k h] by simp
  show ?case
  proof (cases "v < k")
    case True
    with Node.prems have "v \<in> set (inorder l)" by auto
    with Node have "insert_avl l v = Some l" by simp
    with True same show ?thesis by (simp del: insert_rebalance.simps)
  next
    case False
    show ?thesis
    proof (cases "k < v")
      case True
      with Node.prems have "v \<in> set (inorder r)" by auto
      with Node have "insert_avl r v = Some r" by simp
      with True False same show ?thesis by (simp del: insert_rebalance.simps)
    next
      case F2: False
      with False same show ?thesis by (simp del: insert_rebalance.simps)
    qed
  qed
qed

lemma remove_absent_unchanged:
  "heights_ok t \<Longrightarrow> balanced t \<Longrightarrow> v \<notin> set (inorder t) \<Longrightarrow> remove_avl t v = Some t"
proof (induction t)
  case Null
  then show ?case by simp
next
  case (Node l k h r)
  from Node.prems have same: "remove_rebalance (Node l k h r) = Some (Node l k h r)"
    using remove_rebalance_in_range[of l r k h] by simp
  from Node.prems have "v \<noteq> k" by auto
  then consider "v < k" | "k < v" by fastforce
  then show ?case
  proof cases
    case 1
    from Node have "remove_avl l v = Some l" by simp
    with 1 same show ?thesis by (simp del: remove_rebalance.simps)
  next
    case 2
    then have "\<not> v < k" by simp
    moreover from Node have "remove_avl r v = Some r" by simp
    ultimately show ?thesis using 2 same by (simp del: remove_rebalance.simps)
  qed
qed

lemma search_Null_iff: "bst t \<Longrightarrow> (search t v = Null) = (v \<notin> set (inorder t))"
  by (induction t) force+

lemma search_found_key: "search t v \<noteq> Null \<Longrightarrow> key (search t v) = v"
  by (induction t) (auto split: if_splits)

lemma search_after_remove:
  "bst t \<Longrightarrow> remove_avl t v = Some t' \<Longrightarrow> search t' v = Null"
  using remove_avl_keys_bst[of t v t'] by (auto simp: search_Null_iff)

lemma search_after_inserts:
  assumes "run_calls Null (map Insert vs) = Some t"
  shows "(search t v \<noteq> Null) = (v \<in> set vs)"
proof -
  have gen: "run_calls u (map Insert ws) = Some t \<Longrightarrow> bst u \<Longrightarrow>
      bst t \<and> set (inorder t) = set (inorder u) \<union> set ws" for u ws
  proof (induction ws arbitrary: u)
    case Nil
    then show ?case by simp
  next
    case (Cons w ws)
    then obtain u' where u': "insert_avl u w = Some u'" "run_calls u' (map Insert ws) = Some t"
      by (auto split: option.splits)
    from insert_avl_keys_bst[OF u'(1) Cons.prems(2)] Cons.IH[OF u'(2)]
    show ?case by auto
  qed
  from gen[OF assms] show ?thesis by (simp add: search_Null_iff)
qed

section \<open>Where remove leaves the invariants behind\<close>

text \<open>
  C1. Delete-then-search, evaluated on \<^verbatim>\<open>AVL<int>\<close>: the tree is built by inserting
  10, 5, 20, 3, 15, 25, 17 (no rotation happens), so 10 has two children and its
  successor 15 is the left child of 20 and owns the right child 17. \<^verbatim>\<open>remove(10)\<close>
  copies 15 into the root and sets the left link of 20 to null, which drops 17 with
  the successor: 17 was found before the call and is not found after it, although
  it was never removed.
\<close>

theorem remove_drops_successor_subtree:
  "run_calls Null (map Insert [10, 5, 20, 3, 15, 25, 17 :: int]) =
     Some (Node (Node (Node Null 3 1 Null) 5 2 Null) 10 4
            (Node (Node Null 15 2 (Node Null 17 1 Null)) 20 3 (Node Null 25 1 Null)))
   \<and> search (Node (Node (Node Null 3 1 Null) 5 2 Null) 10 4
            (Node (Node Null 15 2 (Node Null 17 1 Null)) 20 3 (Node Null 25 1 Null))) (17::int)
       = Node Null 17 1 Null
   \<and> remove_avl (Node (Node (Node Null 3 1 Null) 5 2 Null) 10 4
            (Node (Node Null 15 2 (Node Null 17 1 Null)) 20 3 (Node Null 25 1 Null))) (10::int)
       = Some (Node (Node (Node Null 3 1 Null) 5 2 Null) 15 4
                (Node Null 20 3 (Node Null 25 1 Null)))
   \<and> search (Node (Node (Node Null 3 1 Null) 5 2 Null) 15 4
                (Node Null 20 3 (Node Null 25 1 Null))) (10::int) = Null
   \<and> search (Node (Node (Node Null 3 1 Null) 5 2 Null) 15 4
                (Node Null 20 3 (Node Null 25 1 Null))) (17::int) = Null"
  by simp

text \<open>
  C2. The rotation choice of remove, evaluated on \<^verbatim>\<open>AVL<int>\<close>: after inserting 4, 2,
  5, 3 the call \<^verbatim>\<open>remove(5)\<close> unwinds to the root 4 with the left child 2 of height 2
  and no right child, so the balance is 2; the left child's own children have heights
  0 (left, absent) and 1 (right, the node 3). Choosing by the grandchildren gives the
  left-then-right double rotation and the tree 3 over 2 and 4; the code compares the
  children of the root instead, takes the single right rotation, and returns 2 over
  the chain 4, 3.
\<close>

theorem remove_rotates_by_children_not_grandchildren:
  "run_calls Null [Insert 4, Insert 2, Insert 5, Insert (3::int)] =
     Some (Node (Node Null 2 2 (Node Null 3 1 Null)) 4 3 (Node Null 5 1 Null))
   \<and> remove_avl (Node (Node Null 2 2 (Node Null 3 1 Null)) 4 3 (Node Null 5 1 Null)) (5::int)
       = Some (Node Null 2 3 (Node (Node Null 3 1 Null) 4 2 Null))
   \<and> height (Node Null (2::int) 2 (Node Null 3 1 Null)) - height (Null :: int node) = 2
   \<and> height (left_of (Node Null (2::int) 2 (Node Null 3 1 Null)))
       < height (right_of (Node Null (2::int) 2 (Node Null 3 1 Null)))
   \<and> remove_rebalance (Node (Node Null 2 2 (Node Null 3 1 Null)) (4::int) 3 Null)
       = Some (Node Null 2 3 (Node (Node Null 3 1 Null) 4 2 Null))
   \<and> remove_rebalance_by_grandchildren (Node (Node Null 2 2 (Node Null 3 1 Null)) (4::int) 3 Null)
       = Some (Node (Node Null 2 1 Null) 3 2 (Node Null 4 1 Null))"
  by simp

text \<open>
  C3. The balance invariant after remove, evaluated on \<^verbatim>\<open>AVL<int>\<close>: inserting 2, 4,
  1, 3 and removing 1 returns the tree 4 over the chain 2, 3. Every cached height of
  it is right, and the root has a left subtree of height 2 and no right subtree.
\<close>

theorem remove_leaves_unbalanced_tree:
  "run_calls Null [Insert 2, Insert 4, Insert 1, Insert 3, Remove (1::int)] =
     Some (Node (Node Null 2 2 (Node Null 3 1 Null)) 4 3 Null)
   \<and> heights_ok (Node (Node Null 2 2 (Node Null 3 1 Null)) (4::int) 3 Null)
   \<and> height (Node Null (2::int) 2 (Node Null 3 1 Null)) - height (Null :: int node) = 2
   \<and> \<not> balanced (Node (Node Null 2 2 (Node Null 3 1 Null)) (4::int) 3 Null)"
  by simp

text \<open>
  C4. The height formula after remove, evaluated on \<^verbatim>\<open>AVL<int>\<close>: inserting 20, 10,
  30, 25 and removing 20 copies the successor 25 into the root and unlinks it from
  30. The node 30 is not on the path the recursion unwinds, so its cached height
  stays 2 although it has no child left, and the root's height is computed from it
  as 3 for a tree of two levels.
\<close>

theorem remove_leaves_stale_height:
  "run_calls Null [Insert 20, Insert 10, Insert 30, Insert 25, Remove (20::int)] =
     Some (Node (Node Null 10 1 Null) 25 3 (Node Null 30 2 Null))
   \<and> cached (Node Null (30::int) 2 Null) = 2
   \<and> 1 + max (height (Null :: int node)) (height (Null :: int node)) = 1
   \<and> \<not> heights_ok (Node (Node Null 10 1 Null) (25::int) 3 (Node Null 30 2 Null))
   \<and> levels (Node (Node Null 10 1 Null) (25::int) 3 (Node Null 30 2 Null)) = 2"
  by simp

text \<open>
  C6. Inserting a key that is present and removing a key that is absent, evaluated on
  \<^verbatim>\<open>AVL<int>\<close> after a remove. Inserting 10, 5, 20, 3, 15, 30, 40 and removing 10
  leaves the node 20 with no left child and a right subtree of height 2. The tree
  holds 20, and \<^verbatim>\<open>insert(20)\<close> reaches that node, finds the balance \<open>-2\<close>, finds that 20
  is not above the right child's key 30, and right-rotates the right child, whose
  left child is null: the call reads through a null pointer. On the tree that
  inserting 4, 2, 5, 3 and removing 5 returns, \<^verbatim>\<open>insert(2)\<close> of the present key 2 and
  \<^verbatim>\<open>remove(7)\<close> of the absent key 7 both return a tree of another shape.
\<close>

theorem noop_calls_after_remove:
  "run_calls Null [Insert 10, Insert 5, Insert 20, Insert 3, Insert 15, Insert 30, Insert 40,
                   Remove (10::int)] =
     Some (Node (Node (Node Null 3 1 Null) 5 2 Null) 15 4
            (Node Null 20 3 (Node Null 30 2 (Node Null 40 1 Null))))
   \<and> search (Node (Node (Node Null 3 1 Null) 5 2 Null) 15 4
            (Node Null 20 3 (Node Null 30 2 (Node Null 40 1 Null)))) (20::int)
       = Node Null 20 3 (Node Null 30 2 (Node Null 40 1 Null))
   \<and> insert_avl (Node (Node (Node Null 3 1 Null) 5 2 Null) 15 4
            (Node Null 20 3 (Node Null 30 2 (Node Null 40 1 Null)))) (20::int) = None
   \<and> run_calls Null [Insert 4, Insert 2, Insert 5, Insert 3, Remove (5::int)] =
       Some (Node Null 2 3 (Node (Node Null 3 1 Null) 4 2 Null))
   \<and> insert_avl (Node Null 2 3 (Node (Node Null 3 1 Null) 4 2 Null)) (2::int)
       = Some (Node (Node Null 2 1 Null) 3 2 (Node Null 4 1 Null))
   \<and> search (Node Null 2 3 (Node (Node Null 3 1 Null) 4 2 Null)) (7::int) = Null
   \<and> remove_avl (Node Null 2 3 (Node (Node Null 3 1 Null) 4 2 Null)) (7::int)
       = Some (Node (Node Null 2 2 (Node Null 3 1 Null)) 4 3 Null)"
  by simp

section \<open>The cell width\<close>

lemma present_lengths_Nil [simp]: "present_lengths [] = {}"
  by (simp add: present_lengths_def)

lemma present_lengths_Cons:
  "present_lengths (c # cs) =
     (if present c then insert (length (cell_value c)) (present_lengths cs) else present_lengths cs)"
  by (auto simp: present_lengths_def)

lemma finite_present_lengths [simp]: "finite (present_lengths cells)"
  by (induction cells) (auto simp: present_lengths_Cons)

lemma Max_insert_insert:
  "finite S \<Longrightarrow> Max (insert w (insert x S)) = Max (insert (max w x) S)"
  by (cases "S = {}") (simp_all add: max.assoc)

lemma fold_cells_Max:
  "fold (\<lambda>cell w'. if present cell \<and> w' < length (cell_value cell)
                    then length (cell_value cell) else w') cells w
   = Max (insert w (present_lengths cells))"
proof (induction cells arbitrary: w)
  case Nil
  then show ?case by simp
next
  case (Cons c cs)
  show ?case
  proof (cases "present c")
    case True
    let ?n = "length (cell_value c)"
    have step: "(if present c \<and> w < ?n then ?n else w) = max w ?n"
      using True by (simp add: max_def)
    have "Max (insert w (present_lengths (c # cs))) = Max (insert w (insert ?n (present_lengths cs)))"
      using True by (simp only: present_lengths_Cons if_True)
    also have "\<dots> = Max (insert (max w ?n) (present_lengths cs))"
      by (rule Max_insert_insert) simp
    finally show ?thesis
      using Cons[of "max w ?n"] step by (simp del: Max_insert)
  next
    case False
    then show ?thesis using Cons[of w] by (simp add: present_lengths_Cons)
  qed
qed

lemma fold_rows_cells:
  "fold (\<lambda>row w. fold f row w) grid w = fold f (concat grid) w"
  by (induction grid arbitrary: w) auto

lemma grid_cell_width_Max:
  "grid_cell_width grid =
     (let floored = Max (insert 3 (present_lengths (concat grid)))
      in if even floored then floored + 1 else floored)"
  by (simp only: grid_cell_width_def fold_rows_cells)
     (simp add: fold_cells_Max Let_def even_iff_mod_2_eq_zero)

lemma grid_cell_width_max:
  assumes "present_lengths (concat grid) \<noteq> {}"
  shows "grid_cell_width grid =
     (let floored = max 3 (Max (present_lengths (concat grid)))
      in if even floored then floored + 1 else floored)"
  using assms by (simp add: grid_cell_width_Max)

lemma cell_width_covers_cells:
  assumes "c \<in> set (concat grid)" "present c"
  shows "length (cell_value c) \<le> grid_cell_width grid"
proof -
  from assms have "length (cell_value c) \<in> insert 3 (present_lengths (concat grid))"
    by (auto simp: present_lengths_def)
  then have "length (cell_value c) \<le> Max (insert 3 (present_lengths (concat grid)))"
    by (intro Max_ge) auto
  then show ?thesis by (simp add: grid_cell_width_Max Let_def del: Max_insert)
qed

lemma root_cell_present:
  assumes "t \<noteq> Null" "1 \<le> height t" "generateDisplayGrid to_string t = Some grid"
  shows "length (to_string (key t)) \<in> present_lengths (concat grid)"
proof -
  from assms obtain l k h r where t: "t = Node l k h r" by (cases t) auto
  from assms(2,3) have g: "grid = map (\<lambda>d. map (cell_of to_string) (slots t d)) [0..<nat (height t)]"
    by (simp add: generateDisplayGrid_eq)
  from assms(2) have "0 < nat (height t)" by simp
  then have "[0..<nat (height t)] = 0 # [1..<nat (height t)]"
    by (simp add: upt_conv_Cons)
  with g have "cell_of to_string t \<in> set (concat grid)" by simp
  with t show ?thesis
    by (force simp: present_lengths_def cell_of_def present_cell_def)
qed

text \<open>
  C8. For every non-empty tree, the cell width that formatGrid computes from the
  tree's grid is the greatest length of a stringified key over the present cells,
  raised to 3 when it is below, and then increased by one when it is even.
\<close>

theorem cell_width_of_tree:
  assumes "t \<noteq> Null" and "1 \<le> height t"
  shows "\<exists>grid. generateDisplayGrid to_string t = Some grid
           \<and> grid_cell_width grid =
               (let longest = Max {length (cell_value c) | c. c \<in> set (concat grid) \<and> present c};
                    floored = max 3 longest
                in if even floored then floored + 1 else floored)"
proof -
  from assms(2) obtain grid where g: "generateDisplayGrid to_string t = Some grid"
    by (simp add: generateDisplayGrid_eq)
  from root_cell_present[OF assms g] have "present_lengths (concat grid) \<noteq> {}" by auto
  from grid_cell_width_max[OF this] g show ?thesis
    by (simp add: present_lengths_def Let_def)
qed

theorem cell_width_of_tree_witness:
  "Node (Node Null 7 1 Null) (1000::int) 2 Null \<noteq> Null
   \<and> 1 \<le> height (Node (Node Null 7 1 Null) (1000::int) 2 Null)
   \<and> generateDisplayGrid show_int (Node (Node Null 7 1 Null) 1000 2 Null)
       = Some [[present_cell ''1000''], [present_cell ''7'', absent_cell]]
   \<and> grid_cell_width [[present_cell ''1000''], [present_cell ''7'', absent_cell]] = 5"
proof -
  let ?t = "Node (Node Null 7 1 Null) (1000::int) 2 Null"
  let ?g = "[[present_cell ''1000''], [present_cell ''7'', absent_cell]]"
  have ne: "?t \<noteq> Null" and h: "1 \<le> height ?t" by simp_all
  have g: "generateDisplayGrid show_int ?t = Some ?g" by code_simp
  have "present_lengths (concat ?g) = {4, 1}"
    by (simp add: present_lengths_Cons present_cell_def absent_cell_def eval_nat_numeral)
  then have S: "{length (cell_value c) | c. c \<in> set (concat ?g) \<and> present c} = {4, 1}"
    by (simp only: present_lengths_def)
  from cell_width_of_tree[OF ne h, of show_int] g
  have "grid_cell_width ?g =
               (let longest = Max {length (cell_value c) | c. c \<in> set (concat ?g) \<and> present c};
                    floored = max 3 longest
                in if even floored then floored + 1 else floored)" by simp
  then have "grid_cell_width ?g = 5" unfolding S by simp
  with ne h g show ?thesis by simp
qed

section \<open>The rendered lines\<close>

lemma format_loop_root:
  assumes wf: "\<forall>d < length grid. length (grid ! d) = 2 ^ d"
  shows "r + k + 1 = length grid \<Longrightarrow> n = 2 ^ k \<Longrightarrow>
         \<exists>res p. format_loop cw grid r n lp result = Some res \<and> res \<noteq> []
                 \<and> last res = value_row cw p (grid ! 0) 1"
proof (induction k arbitrary: r n lp result)
  case 0
  then have "r < length grid" "length grid - r - 1 = 0" "n = 1" by auto
  moreover have "length (grid ! 0) = 1"
    using wf[rule_format, of 0] 0 by (cases grid) auto
  ultimately show ?case
    by (subst format_loop.simps) (auto simp: Let_def)
next
  case (Suc k)
  then have r: "r < length grid" and idx: "length grid - r - 1 = Suc k"
    and n: "n = 2 * 2 ^ k" by auto
  from wf idx r have len: "length (grid ! (length grid - r - 1)) = n"
    using n by simp
  have n1: "n \<noteq> 1" using n by presburger
  have half: "n div 2 = 2 ^ k" using n by simp
  from Suc.prems have r': "Suc r + k + 1 = length grid" by simp
  let ?gridRow = "grid ! (length grid - r - 1)"
  let ?space = "2 ^ r * (cw + 1) div 2 - 1"
  let ?result' = "result @ [value_row cw lp ?gridRow n]
                        @ map (\<lambda>i. slash_row (?space + 1 + i) (?space - 1 - i) ?gridRow n) [0..<?space]"
  have "format_loop cw grid r n lp result
        = format_loop cw grid (r + 1) (n div 2) (lp + ?space + 1) ?result'"
    using r len n1 by (subst format_loop.simps) (simp add: Let_def)
  with Suc.IH[OF r' half, of "lp + ?space + 1" ?result']
  show ?case by simp
qed

lemma leading_spaces_le: "leading_spaces row \<le> length row"
  by (simp add: leading_spaces_def length_takeWhile_le)

lemma leading_spaces_drop:
  "m \<le> leading_spaces row \<Longrightarrow> leading_spaces (drop m row) = leading_spaces row - m"
proof (induction row arbitrary: m)
  case Nil
  then show ?case by (simp add: leading_spaces_def)
next
  case (Cons c row)
  show ?case
  proof (cases m)
    case 0
    then show ?thesis by simp
  next
    case (Suc m')
    with Cons.prems have "c = CHR '' ''" "m' \<le> leading_spaces row"
      by (auto simp: leading_spaces_def split: if_splits)
    with Cons.IH[of m'] Suc show ?thesis by (simp add: leading_spaces_def)
  qed
qed

lemma min_space_scan_None:
  "min_space_scan rows m = None \<Longrightarrow> \<exists>row \<in> set rows. leading_spaces row = 0"
  by (induction rows arbitrary: m) (auto simp: Let_def split: if_splits)

lemma min_space_scan_Some:
  "min_space_scan rows m = Some m' \<Longrightarrow> m' = Min (insert m (leading_spaces ` set rows))"
proof (induction rows arbitrary: m)
  case Nil
  then show ?case by simp
next
  case (Cons row rows)
  let ?i = "leading_spaces row"
  from Cons.prems have rest: "min_space_scan rows (min ?i m) = Some m'"
    by (auto simp: Let_def min_def split: if_splits)
  from Cons.IH[OF rest] have "m' = Min (insert (min ?i m) (leading_spaces ` set rows))" .
  also have "\<dots> = Min (insert m (insert ?i (leading_spaces ` set rows)))"
    by (cases "rows = []") (simp_all add: min.assoc min.commute min.left_commute)
  finally show ?case by simp
qed

lemma trimRowsLeft_eq:
  assumes "rows \<noteq> []"
  shows "trimRowsLeft rows = map (drop (Min (leading_spaces ` set rows))) rows"
proof -
  from assms obtain front rest where rows: "rows = front # rest" by (cases rows) auto
  show ?thesis
  proof (cases "min_space_scan rows (length front)")
    case None
    from min_space_scan_None[OF None] have "0 \<in> leading_spaces ` set rows" by force
    then have "Min (leading_spaces ` set rows) = 0"
      by (metis List.finite_set Min_le finite_imageI le_zero_eq)
    with None rows show ?thesis by (simp add: trimRowsLeft_def)
  next
    case (Some m)
    have "Min (insert (length front) (leading_spaces ` set rows)) = Min (leading_spaces ` set rows)"
    proof -
      have "leading_spaces front \<in> leading_spaces ` set rows" using rows by simp
      then have "Min (leading_spaces ` set rows) \<le> leading_spaces front" by simp
      also have "\<dots> \<le> length front" by (rule leading_spaces_le)
      finally have "min (length front) (Min (leading_spaces ` set rows)) = Min (leading_spaces ` set rows)"
        by simp
      moreover have "leading_spaces ` set rows \<noteq> {}" using rows by simp
      ultimately show ?thesis by simp
    qed
    with min_space_scan_Some[OF Some] Some rows show ?thesis by (simp add: trimRowsLeft_def)
  qed
qed

lemma trimRowsLeft_zero:
  assumes "rows \<noteq> []"
  shows "\<exists>row \<in> set (trimRowsLeft rows). leading_spaces row = 0"
proof -
  let ?m = "Min (leading_spaces ` set rows)"
  have "?m \<in> leading_spaces ` set rows" using assms by (intro Min_in) auto
  then obtain row where row: "row \<in> set rows" "leading_spaces row = ?m" by auto
  then have "leading_spaces (drop ?m row) = 0" by (simp add: leading_spaces_drop)
  moreover have "drop ?m row \<in> set (trimRowsLeft rows)"
    using row assms by (simp add: trimRowsLeft_eq)
  ultimately show ?thesis by blast
qed

lemma formatGrid_of_tree:
  assumes "1 \<le> height t" "height t \<le> 31" "generateDisplayGrid to_string t = Some grid"
  shows "\<exists>rows p. formatGrid grid = Some rows \<and> rows \<noteq> []
           \<and> hd rows = spaces p @ format_cell (grid_cell_width grid) 0 (cell_of to_string t)"
proof -
  from assms have g: "grid = map (\<lambda>d. map (cell_of to_string) (slots t d)) [0..<nat (height t)]"
    by (simp add: generateDisplayGrid_eq)
  then have len: "length grid = nat (height t)" by simp
  with assms have ne: "grid \<noteq> []" and le: "\<not> 31 < length grid" by auto
  from g have wf: "\<forall>d < length grid. length (grid ! d) = 2 ^ d" by simp
  from g assms(1) have g0: "grid ! 0 = [cell_of to_string t]" by simp
  from ne have "0 + (length grid - 1) + 1 = length grid" by (cases grid) auto
  from format_loop_root[OF wf this refl, of "grid_cell_width grid" 0 "[]"]
  obtain res p where res: "format_loop (grid_cell_width grid) grid 0 (2 ^ (length grid - 1)) 0 [] = Some res"
    "res \<noteq> []" "last res = value_row (grid_cell_width grid) p (grid ! 0) 1"
    by blast
  have "formatGrid grid = Some (rev res)" using ne le res by (simp add: formatGrid_def)
  moreover have "hd (rev res) = spaces p @ format_cell (grid_cell_width grid) 0 (cell_of to_string t)"
    using res g0 by (simp add: hd_rev value_row_def)
  ultimately show ?thesis using res(2) by auto
qed

text \<open>
  C9, as amended. For every non-empty tree of height at most 31 (from 32 rows on,
  \<^verbatim>\<open>1 << (row_count - 1)\<close> does not fit the \<^verbatim>\<open>int\<close> it is computed in), formatGrid
  returns the rows with the root line first: some spaces and then the root's key
  centred in a cell. trimRowsLeft removes from every row the same number of
  characters, the least number of leading spaces of any row, so at least one trimmed
  row begins with no space. display then writes each trimmed row behind one more
  space: every line of the final output begins with a space.
\<close>

theorem display_trimmed_rows:
  assumes "t \<noteq> Null" and "1 \<le> height t" and "height t \<le> 31"
  shows "\<exists>grid rows p.
           generateDisplayGrid to_string t = Some grid
           \<and> formatGrid grid = Some rows
           \<and> rows \<noteq> []
           \<and> hd rows = spaces p @ format_cell (grid_cell_width grid) 0 (present_cell (to_string (key t)))
           \<and> trimRowsLeft rows = map (drop (Min (leading_spaces ` set rows))) rows
           \<and> (\<exists>row \<in> set (trimRowsLeft rows). leading_spaces row = 0)
           \<and> display to_string t = Some (map (\<lambda>row. CHR '' '' # row) (trimRowsLeft rows))
           \<and> (\<forall>line \<in> set (map (\<lambda>row. CHR '' '' # row) (trimRowsLeft rows)). 1 \<le> leading_spaces line)"
proof -
  from assms(2) obtain grid where g: "generateDisplayGrid to_string t = Some grid"
    by (simp add: generateDisplayGrid_eq)
  from formatGrid_of_tree[OF assms(2,3) g]
  obtain rows p where rows: "formatGrid grid = Some rows" "rows \<noteq> []"
    "hd rows = spaces p @ format_cell (grid_cell_width grid) 0 (cell_of to_string t)"
    by blast
  from assms(1) have c: "cell_of to_string t = present_cell (to_string (key t))"
    by (cases t) (simp_all add: cell_of_def)
  from assms(2) have h0: "height t \<noteq> 0" by simp
  have d: "display to_string t = Some (map (\<lambda>row. CHR '' '' # row) (trimRowsLeft rows))"
    using g rows(1) h0 by (simp add: display_def)
  have "\<forall>line \<in> set (map (\<lambda>row. CHR '' '' # row) (trimRowsLeft rows)). 1 \<le> leading_spaces line"
    by (auto simp: leading_spaces_def)
  with g rows c d trimRowsLeft_eq[OF rows(2)] trimRowsLeft_zero[OF rows(2)]
  show ?thesis by (intro exI[of _ grid] exI[of _ rows] exI[of _ p]) simp
qed

theorem display_trimmed_rows_witness:
  "Node (Node Null 10 1 Null) (20::int) 2 (Node Null 30 1 Null) \<noteq> Null
   \<and> 1 \<le> height (Node (Node Null 10 1 Null) (20::int) 2 (Node Null 30 1 Null))
   \<and> height (Node (Node Null 10 1 Null) (20::int) 2 (Node Null 30 1 Null)) \<le> 31
   \<and> formatGrid [[present_cell ''20''], [present_cell ''10'', present_cell ''30'']]
       = Some [''   20'', ''  / '' @ [CHR 0x5C], '' 10 30 '']
   \<and> trimRowsLeft [''   20'', ''  / '' @ [CHR 0x5C], '' 10 30 '']
       = map (drop (Min (leading_spaces ` set [''   20'', ''  / '' @ [CHR 0x5C], '' 10 30 ''])))
           [''   20'', ''  / '' @ [CHR 0x5C], '' 10 30 '']
   \<and> trimRowsLeft [''   20'', ''  / '' @ [CHR 0x5C], '' 10 30 '']
       = [''  20'', '' / '' @ [CHR 0x5C], ''10 30 '']
   \<and> leading_spaces ''10 30 '' = 0
   \<and> display show_int (Node (Node Null 10 1 Null) 20 2 (Node Null 30 1 Null))
       = Some [''   20'', ''  / '' @ [CHR 0x5C], '' 10 30 '']"
proof -
  let ?t = "Node (Node Null 10 1 Null) (20::int) 2 (Node Null 30 1 Null)"
  let ?g = "[[present_cell ''20''], [present_cell ''10'', present_cell ''30'']]"
  let ?rows = "[''   20'', ''  / '' @ [CHR 0x5C], '' 10 30 '']"
  have ne: "?t \<noteq> Null" and lo: "1 \<le> height ?t" and hi: "height ?t \<le> 31" by simp_all
  have g: "generateDisplayGrid show_int ?t = Some ?g" by code_simp
  have f: "formatGrid ?g = Some ?rows" by code_simp
  have tr: "trimRowsLeft ?rows = [''  20'', '' / '' @ [CHR 0x5C], ''10 30 '']" by code_simp
  have ls: "leading_spaces ''10 30 '' = 0" by code_simp
  from display_trimmed_rows[OF ne lo hi, of show_int] g f
  have "trimRowsLeft ?rows = map (drop (Min (leading_spaces ` set ?rows))) ?rows"
    and "display show_int ?t = Some (map (\<lambda>row. CHR '' '' # row) (trimRowsLeft ?rows))"
    by auto
  with ne lo hi f tr ls show ?thesis by simp
qed

text \<open>
  C9 as stated fails on what display writes: for the tree that \<^verbatim>\<open>insert(7)\<close> builds
  the only line written is a space, the digit 7 and a space, and it begins with one
  space, not with zero.
\<close>

theorem display_line_starts_with_space:
  "run_calls Null [Insert (7::int)] = Some (Node Null 7 1 Null)
   \<and> display show_int (Node Null (7::int) 1 Null) = Some ['' 7 '']
   \<and> leading_spaces '' 7 '' = 1"
  by code_simp

end
